theory Spec2Isabelle
  imports Complex_Main "HOL-Library.Word" "HOL-Library.Log_Nat"
begin

section \<open>JavaScript strings\<close>

text \<open>
  A JavaScript string is a sequence of 16-bit code units. The regular expressions of
  \<^verbatim>\<open>utils/lyrics.ts\<close> carry no \<^verbatim>\<open>u\<close> flag, so they work on code units too.
  \<open>js\<close> writes an ASCII literal as a JavaScript string.
\<close>

type_synonym cu = "16 word"
type_synonym jsstring = "cu list"

definition js :: "string \<Rightarrow> jsstring" where
  "js s = map of_char s"

text \<open>
  ECMAScript LineTerminator code units: LF, CR, U+2028, U+2029. The atom \<^verbatim>\<open>.\<close> of a
  regular expression without the \<^verbatim>\<open>s\<close> flag matches every code unit but these.
\<close>

definition isLineTerminator :: "cu \<Rightarrow> bool" where
  "isLineTerminator c = (c = 0x0A \<or> c = 0x0D \<or> c = 0x2028 \<or> c = 0x2029)"

text \<open>\<^verbatim>\<open>s.split("\n")\<close>: the pieces between line feeds; the empty string gives one empty piece.\<close>

fun split_nl :: "jsstring \<Rightarrow> jsstring list" where
  "split_nl [] = [[]]"
| "split_nl (c # cs) =
     (if c = 0x0A then [] # split_nl cs
      else (case split_nl cs of [] \<Rightarrow> [[c]] | l # ls \<Rightarrow> (c # l) # ls))"

text \<open>\<^verbatim>\<open>xs.join("\n")\<close>\<close>

fun join_nl :: "jsstring list \<Rightarrow> jsstring" where
  "join_nl [] = []"
| "join_nl [l] = l"
| "join_nl (l # m # ls) = l @ 0x0A # join_nl (m # ls)"

section \<open>parseLyrics\<close>

record LyricSection =
  tag :: jsstring
  lines :: "jsstring list"
  index :: nat

text \<open>
  \<^verbatim>\<open>line.match(/^\[(.+)\]$/)\<close>, giving capture group 1. There is no \<^verbatim>\<open>m\<close> flag, so
  \<^verbatim>\<open>^\<close> and \<^verbatim>\<open>$\<close> are the two ends of the line: the line is an opening bracket, one or
  more code units that are no line terminators, and a closing bracket as its last code
  unit. The group is everything between the first and the last code unit.
\<close>

definition tagMatch :: "jsstring \<Rightarrow> jsstring option" where
  "tagMatch line =
     (case line of
        [] \<Rightarrow> None
      | c # rest \<Rightarrow>
          if c = 0x5B \<and> rest \<noteq> [] \<and> last rest = 0x5D \<and> butlast rest \<noteq> []
             \<and> list_all (\<lambda>x. \<not> isLineTerminator x) (butlast rest)
          then Some (butlast rest) else None)"

text \<open>The variables of the loop of \<^verbatim>\<open>parseLyrics\<close>.\<close>

record pl_state =
  sections :: "LyricSection list"
  currentTag :: jsstring
  currentLines :: "jsstring list"
  sectionIndex :: nat

definition pl_init :: pl_state where
  "pl_init = \<lparr>sections = [], currentTag = [], currentLines = [], sectionIndex = 0\<rparr>"

text \<open>The pending section is pushed when it has a line or a non-empty (truthy) tag.\<close>

definition pl_pending :: "pl_state \<Rightarrow> bool" where
  "pl_pending st = (currentLines st \<noteq> [] \<or> currentTag st \<noteq> [])"

definition pl_push :: "pl_state \<Rightarrow> LyricSection list" where
  "pl_push st = sections st @
     [\<lparr>tag = currentTag st, lines = currentLines st, index = sectionIndex st\<rparr>]"

text \<open>One iteration of \<^verbatim>\<open>for (const line of lyrics.split("\n"))\<close>.\<close>

definition pl_step :: "pl_state \<Rightarrow> jsstring \<Rightarrow> pl_state" where
  "pl_step st line =
     (case tagMatch line of
        Some tg \<Rightarrow>
          (if pl_pending st
           then st\<lparr>sections := pl_push st, sectionIndex := sectionIndex st + 1,
                   currentTag := tg, currentLines := []\<rparr>
           else st\<lparr>currentTag := tg, currentLines := []\<rparr>)
      | None \<Rightarrow> st\<lparr>currentLines := currentLines st @ [line]\<rparr>)"

text \<open>The code after the loop.\<close>

definition pl_finish :: "pl_state \<Rightarrow> LyricSection list" where
  "pl_finish st = (if pl_pending st then pl_push st else sections st)"

definition parseLyrics :: "jsstring \<Rightarrow> LyricSection list" where
  "parseLyrics lyrics = pl_finish (foldl pl_step pl_init (split_nl lyrics))"

subsection \<open>The sections as the specification describes them\<close>

text \<open>
  A line is a tag line when it has the form \<^verbatim>\<open>[TagName]\<close>: an opening bracket first, a
  closing bracket last, at least one code unit between them, and no line terminator. The lines up to the next tag line are the body of the current
  section, which is emitted when it has a non-empty tag or a line; the tag line that
  follows starts the next section.
\<close>

definition is_tag_line :: "jsstring \<Rightarrow> bool" where
  "is_tag_line l = (3 \<le> length l \<and> hd l = 0x5B \<and> last l = 0x5D
                      \<and> list_all (\<lambda>x. \<not> isLineTerminator x) l)"

definition tag_name :: "jsstring \<Rightarrow> jsstring" where
  "tag_name l = butlast (tl l)"

function sections_of :: "jsstring \<Rightarrow> jsstring list \<Rightarrow> (jsstring \<times> jsstring list) list" where
  "sections_of tg ls =
     (let body = takeWhile (\<lambda>l. \<not> is_tag_line l) ls in
      (if tg \<noteq> [] \<or> body \<noteq> [] then [(tg, body)] else []) @
      (case dropWhile (\<lambda>l. \<not> is_tag_line l) ls of
         [] \<Rightarrow> []
       | t # rest \<Rightarrow> sections_of (tag_name t) rest))"
  by pat_completeness auto
termination
proof (relation "measure (\<lambda>(tg, ls). length ls)")
  show "wf (measure (\<lambda>(tg, ls). length ls))" by simp
next
  fix tg :: jsstring and ls body t rest
  assume "dropWhile (\<lambda>l. \<not> is_tag_line l) ls = t # rest"
  then have "Suc (length rest) = length (dropWhile (\<lambda>l. \<not> is_tag_line l) ls)" by simp
  also have "\<dots> \<le> length ls" by (rule length_dropWhile_le)
  finally show "((tag_name t, rest), (tg, ls)) \<in> measure (\<lambda>(tg, ls). length ls)" by simp
qed

declare sections_of.simps [simp del]

definition number_sections :: "nat \<Rightarrow> (jsstring \<times> jsstring list) list \<Rightarrow> LyricSection list" where
  "number_sections k xs =
     map (\<lambda>(i, tg, body). \<lparr>tag = tg, lines = body, index = i\<rparr>) (List.enumerate k xs)"

text \<open>Writing a section back: its tag line, when it has a tag, and then its lines.\<close>

definition tag_line :: "jsstring \<Rightarrow> jsstring list" where
  "tag_line tg = (if tg = [] then [] else [0x5B # tg @ [0x5D]])"

definition render_section :: "LyricSection \<Rightarrow> jsstring list" where
  "render_section s = tag_line (tag s) @ lines s"

text \<open>The input of the specification's example, and a second one with an untagged head.\<close>

definition lyrics_example :: jsstring where
  "lyrics_example = js ''[Verse]'' @ 0x0A # js ''line1'' @ 0x0A # js ''line2'' @ 0x0A #
     js ''[Chorus]'' @ 0x0A # js ''line3''"

definition lyrics_example2 :: jsstring where
  "lyrics_example2 = js ''a'' @ 0x0A # js ''[T]'' @ 0x0A # js ''b''"

section \<open>parseLRC, lrcToPlain and findActiveLRCIndex\<close>

subsection \<open>JavaScript numbers\<close>

text \<open>
  A JavaScript number is an IEEE 754 double. A finite double is a real number, and each
  arithmetic operation gives the exact result rounded to the nearest double, ties to the
  even significand. \<open>fl\<close> is that rounding for the normal range (a significand of 53
  bits, \<open>exponent2\<close> being the binary exponent of the value); the times and the time
  differences of this file are 0 or lie between \<open>2 powi (- 1022)\<close> and \<open>2 powi 13\<close> in
  magnitude, where neither overflow nor subnormal numbers occur.
\<close>

definition roundTiesToEven :: "real \<Rightarrow> int" where
  "roundTiesToEven y =
     (let f = \<lfloor>y\<rfloor>; d = y - of_int f
      in if d < 1 / 2 then f else if 1 / 2 < d then f + 1 else if even f then f else f + 1)"

definition exponent2 :: "real \<Rightarrow> int" where
  "exponent2 x = (if 1 \<le> x then bitlen \<lfloor>x\<rfloor> - 1 else - bitlen (\<lceil>1 / x\<rceil> - 1))"

definition fl :: "real \<Rightarrow> real" where
  "fl x = (if x = 0 then 0
           else (let u = 2 powi (exponent2 \<bar>x\<bar> - 52)
                 in of_int (roundTiesToEven (x / u)) * u))"

definition double_add :: "real \<Rightarrow> real \<Rightarrow> real" where
  "double_add x y = fl (x + y)"

definition double_sub :: "real \<Rightarrow> real \<Rightarrow> real" where
  "double_sub x y = fl (x - y)"

definition double_mul :: "real \<Rightarrow> real \<Rightarrow> real" where
  "double_mul x y = fl (x * y)"

definition double_div :: "real \<Rightarrow> real \<Rightarrow> real" where
  "double_div x y = fl (x / y)"

record TimedLyricLine =
  time :: real
  "text" :: jsstring

text \<open>
  The code units that \<^verbatim>\<open>String.prototype.trim\<close> strips and that \<^verbatim>\<open>\s\<close> matches: ECMAScript
  WhiteSpace and LineTerminator.
\<close>

definition isWhiteSpace :: "cu \<Rightarrow> bool" where
  "isWhiteSpace c =
     (c = 0x09 \<or> c = 0x0A \<or> c = 0x0B \<or> c = 0x0C \<or> c = 0x0D \<or> c = 0x20 \<or> c = 0xA0
      \<or> c = 0x1680 \<or> (0x2000 \<le> c \<and> c \<le> 0x200A) \<or> c = 0x2028 \<or> c = 0x2029
      \<or> c = 0x202F \<or> c = 0x205F \<or> c = 0x3000 \<or> c = 0xFEFF)"

definition trim :: "jsstring \<Rightarrow> jsstring" where
  "trim s = rev (dropWhile isWhiteSpace (rev (dropWhile isWhiteSpace s)))"

text \<open>\<^verbatim>\<open>\d\<close> without the \<^verbatim>\<open>u\<close> flag: the ASCII digits.\<close>

definition isDigit :: "cu \<Rightarrow> bool" where
  "isDigit c = (0x30 \<le> c \<and> c \<le> 0x39)"

text \<open>\<^verbatim>\<open>parseInt(s, 10)\<close> on a string of ASCII digits, which is what the groups are.\<close>

definition parseInt :: "jsstring \<Rightarrow> nat" where
  "parseInt s = foldl (\<lambda>n c. 10 * n + (unat c - 48)) 0 s"

subsection \<open>The structural-marker pattern\<close>












subsection \<open>parseLRC\<close>

text \<open>
  \<^verbatim>\<open>raw.match(/^\[(\d{2}):(\d{2})\.(\d{2,3})\](.*)$/)\<close>, giving the four groups. The
  fraction takes a third digit when there is one; \<^verbatim>\<open>.*\<close> has to reach the end of the line,
  so the text holds no line terminator.
\<close>

fun lrcMatch :: "jsstring \<Rightarrow> (jsstring \<times> jsstring \<times> jsstring \<times> jsstring) option" where
  "lrcMatch (b # m1 # m2 # c # s1 # s2 # d # f1 # f2 # x # r) =
     (if b = 0x5B \<and> isDigit m1 \<and> isDigit m2 \<and> c = 0x3A \<and> isDigit s1 \<and> isDigit s2
         \<and> d = 0x2E \<and> isDigit f1 \<and> isDigit f2
      then (if isDigit x
            then (case r of
                    [] \<Rightarrow> None
                  | y # r' \<Rightarrow>
                      if y = 0x5D \<and> list_all (\<lambda>u. \<not> isLineTerminator u) r'
                      then Some ([m1, m2], [s1, s2], [f1, f2, x], r') else None)
            else if x = 0x5D \<and> list_all (\<lambda>u. \<not> isLineTerminator u) r
                 then Some ([m1, m2], [s1, s2], [f1, f2], r) else None)
      else None)"
| "lrcMatch _ = None"



subsection \<open>The lines of parseLRC as the specification describes them\<close>

text \<open>
  The time of a line \<^verbatim>\<open>[MM:SS.ff]\<close> in seconds, as an exact number: a fraction of two
  digits counts hundredths, one of three digits thousandths.
\<close>

definition lrc_seconds :: "jsstring \<Rightarrow> jsstring \<Rightarrow> jsstring \<Rightarrow> real" where
  "lrc_seconds mm ss ff =
     60 * real (parseInt mm) + real (parseInt ss)
     + (if length ff = 2 then real (parseInt ff) / 100 else real (parseInt ff) / 1000)"

text \<open>
  The double that both \<^verbatim>\<open>parseLRC\<close> and \<^verbatim>\<open>lrcToPlain\<close> compute for it:
  \<^verbatim>\<open>minutes * 60 + seconds + ms / 1000\<close>, every operation rounded.
\<close>

definition lrc_time :: "jsstring \<Rightarrow> jsstring \<Rightarrow> jsstring \<Rightarrow> real" where
  "lrc_time mm ss ff =
     double_add (double_add (double_mul (real (parseInt mm)) 60) (real (parseInt ss)))
       (double_div (if length ff = 2 then double_mul (real (parseInt ff)) 10
                    else real (parseInt ff)) 1000)"





subsection \<open>lrcToPlain\<close>

text \<open>The variables of the loop of \<^verbatim>\<open>lrcToPlain\<close>.\<close>

record ltp_state =
  result :: "jsstring list"
  prevTime :: real

definition ltp_init :: ltp_state where
  "ltp_init = \<lparr>result = [], prevTime = 0\<rparr>"

text \<open>
  One iteration of the loop. A timed line with an empty trimmed text is skipped by
  \<^verbatim>\<open>continue\<close>; a line that is no timed line is passed through as it is.
\<close>

definition ltp_step :: "ltp_state \<Rightarrow> jsstring \<Rightarrow> ltp_state" where
  "ltp_step st raw =
     (case lrcMatch raw of
        Some (g1, g2, g3, g4) \<Rightarrow>
          (let tm = double_add
                      (double_add (double_mul (real (parseInt g1)) 60) (real (parseInt g2)))
                      (double_div (if length g3 = 2 then double_mul (real (parseInt g3)) 10
                                   else real (parseInt g3)) 1000);
               txt = trim g4
           in if txt = [] then st
              else (let res = (if result st \<noteq> [] \<and> double_sub tm (prevTime st) > 6
                               then result st @ [[]] else result st)
                    in \<lparr>result = res @ [txt], prevTime = tm\<rparr>))
      | None \<Rightarrow> st\<lparr>result := result st @ [raw]\<rparr>)"

definition ltp_lines :: "jsstring list \<Rightarrow> jsstring list" where
  "ltp_lines ls = result (foldl ltp_step ltp_init ls)"

definition lrcToPlain :: "jsstring \<Rightarrow> jsstring" where
  "lrcToPlain lrc = join_nl (ltp_lines (split_nl lrc))"

text \<open>
  A timed line that \<^verbatim>\<open>lrcToPlain\<close> emits (its trimmed text is not empty), its time and
  its text.
\<close>

definition ltp_emitted :: "jsstring \<Rightarrow> bool" where
  "ltp_emitted raw =
     (case lrcMatch raw of None \<Rightarrow> False | Some (mm, ss, ff, t) \<Rightarrow> trim t \<noteq> [])"

definition ltp_time :: "jsstring \<Rightarrow> real" where
  "ltp_time raw =
     (case lrcMatch raw of None \<Rightarrow> 0 | Some (mm, ss, ff, t) \<Rightarrow> lrc_time mm ss ff)"

definition ltp_text :: "jsstring \<Rightarrow> jsstring" where
  "ltp_text raw = (case lrcMatch raw of None \<Rightarrow> raw | Some (mm, ss, ff, t) \<Rightarrow> trim t)"

text \<open>The lines between two emitted timed lines that reach the output: those that are no timed lines.\<close>

definition ltp_passed :: "jsstring list \<Rightarrow> jsstring list" where
  "ltp_passed ls = filter (\<lambda>l. lrcMatch l = None) ls"

text \<open>
  The exact time of a timed line, and the gap in seconds from one timed line to the next
  as the timestamps give it.
\<close>

definition ltp_seconds :: "jsstring \<Rightarrow> real" where
  "ltp_seconds raw =
     (case lrcMatch raw of None \<Rightarrow> 0 | Some (mm, ss, ff, t) \<Rightarrow> lrc_seconds mm ss ff)"

text \<open>Three timed lines: the second 6 seconds after the first, the third 6.01 seconds after the second.\<close>

definition plain_l1 :: jsstring where "plain_l1 = js ''[00:01.00]a''"
definition plain_l2 :: jsstring where "plain_l2 = js ''[00:07.00] b ''"
definition plain_l3 :: jsstring where "plain_l3 = js ''[00:13.01]c''"

definition plain_example :: jsstring where
  "plain_example = plain_l1 @ 0x0A # plain_l2 @ 0x0A # plain_l3"

text \<open>Two timed lines 6 seconds apart, at 2.05 and at 8.05 seconds.\<close>

definition boundary_l1 :: jsstring where "boundary_l1 = js ''[00:02.05]a''"
definition boundary_l2 :: jsstring where "boundary_l2 = js ''[00:08.05]b''"

definition boundary_example :: jsstring where
  "boundary_example = boundary_l1 @ 0x0A # boundary_l2"

subsection \<open>findActiveLRCIndex\<close>

text \<open>
  The loop \<^verbatim>\<open>for (let i = 0; i < lines.length; i++)\<close> with its \<^verbatim>\<open>break\<close>, from index
  \<open>i\<close> with the current value of \<^verbatim>\<open>active\<close>.
\<close>

function findActive_loop :: "TimedLyricLine list \<Rightarrow> real \<Rightarrow> nat \<Rightarrow> int \<Rightarrow> int" where
  "findActive_loop lns currentTime i active =
     (if i < length lns
      then (if time (lns ! i) \<le> currentTime
            then findActive_loop lns currentTime (i + 1) (int i)
            else active)
      else active)"
  by pat_completeness auto
termination
  by (relation "measure (\<lambda>(lns, currentTime, i, active). length lns - i)") auto

declare findActive_loop.simps [simp del]

definition findActiveLRCIndex :: "TimedLyricLine list \<Rightarrow> real \<Rightarrow> int" where
  "findActiveLRCIndex lns currentTime =
     (if length lns = 0 then - 1 else findActive_loop lns currentTime 0 (- 1))"

definition timed_example :: "TimedLyricLine list" where
  "timed_example = [\<lparr>time = 0, text = js ''a''\<rparr>, \<lparr>time = 5, text = js ''b''\<rparr>,
     \<lparr>time = 10, text = js ''c''\<rparr>]"

section \<open>useTaskPolling\<close>

text \<open>
  The hook runs on the event loop of the web view: \<^verbatim>\<open>setInterval\<close> registers a timer, every
  firing of an active timer starts the asynchronous callback, which calls
  \<^verbatim>\<open>api.getTaskStatus\<close> and is suspended at \<^verbatim>\<open>await\<close>, and the rest of the callback runs when
  that call settles. The model is a state with the shared store, the state of the hook,
  the active timers and the pending calls, and one transition for each of these events.
\<close>

datatype GenerationStatus = Pending | Processing | Completed | Failed

text \<open>The type \<^verbatim>\<open>GenerationStatus | "idle"\<close> of the store.\<close>

datatype StoreStatus = Idle | Status GenerationStatus

text \<open>The fields of the response that the callback reads; an optional field may be absent.\<close>

record Generation =
  gen_status :: GenerationStatus
  gen_progress :: "real option"
  gen_progress_message :: "jsstring option"
  gen_lyrics :: "jsstring option"
  gen_title :: "jsstring option"
  gen_error_message :: "jsstring option"

text \<open>
  How \<^verbatim>\<open>api.getTaskStatus\<close> settles: the promise is rejected (transport error, a status
  that is not ok, a body that is no JSON), or it is resolved with \<^verbatim>\<open>null\<close> (status 204 or
  an empty body), or it is resolved with a response.
\<close>

datatype fetch_result = Rejected | ResolvedNull | Resolved Generation

text \<open>
  The fields of the store that the hook writes (\<^verbatim>\<open>progress\<close>, \<^verbatim>\<open>lyrics\<close> and \<^verbatim>\<open>title\<close> with
  the prefix \<open>store\<close>), the state \<^verbatim>\<open>progressMessage\<close> and the ref
  \<^verbatim>\<open>pollIntervalRef\<close> of the hook, and the event loop: the active interval timers with the
  task id in the closure of their callback (the period is 2000 ms), the next timer
  handle (handles are positive, so a stored handle is truthy), the pending calls of
  \<^verbatim>\<open>api.getTaskStatus\<close> with the timer of their callback, every call made so far, and the
  delays of the scheduled \<^verbatim>\<open>scrollIntoView\<close> timeouts.
\<close>

record poll_state =
  generationStatus :: StoreStatus
  store_progress :: real
  store_lyrics :: jsstring
  store_title :: jsstring
  errorMessage :: "jsstring option"
  successMessage :: "jsstring option"
  progressMessage :: jsstring
  pollIntervalRef :: "nat option"
  intervals :: "(nat \<times> jsstring) list"
  nextTimer :: nat
  inflight :: "(nat \<times> jsstring) list"
  fetches :: "(nat \<times> jsstring) list"
  timeouts :: "nat list"

definition poll_init :: poll_state where
  "poll_init = \<lparr>generationStatus = Idle, store_progress = 0, store_lyrics = [], store_title = [],
     errorMessage = None, successMessage = None, progressMessage = [],
     pollIntervalRef = None, intervals = [], nextTimer = 1, inflight = [], fetches = [],
     timeouts = []\<rparr>"

definition clearInterval :: "nat \<Rightarrow> poll_state \<Rightarrow> poll_state" where
  "clearInterval i s = s\<lparr>intervals := filter (\<lambda>(j, taskId). j \<noteq> i) (intervals s)\<rparr>"

text \<open>\<^verbatim>\<open>pollTask(taskId)\<close>, lines 100 to 132 without the body of the callback.\<close>

definition pollTask :: "jsstring \<Rightarrow> poll_state \<Rightarrow> poll_state" where
  "pollTask taskId s =
     (let s1 = (case pollIntervalRef s of None \<Rightarrow> s | Some i \<Rightarrow> clearInterval i s);
          interval = nextTimer s1
      in s1\<lparr>intervals := intervals s1 @ [(interval, taskId)],
             nextTimer := interval + 1,
             pollIntervalRef := Some interval\<rparr>)"

text \<open>
  A firing of timer \<open>i\<close>: nothing when the timer is not active; otherwise the callback
  starts and calls \<^verbatim>\<open>api.getTaskStatus(taskId)\<close>.
\<close>

definition tick :: "nat \<Rightarrow> poll_state \<Rightarrow> poll_state" where
  "tick i s =
     (case map_of (intervals s) i of
        None \<Rightarrow> s
      | Some taskId \<Rightarrow> s\<lparr>inflight := inflight s @ [(i, taskId)],
                          fetches := fetches s @ [(i, taskId)]\<rparr>)"

text \<open>
  The callback after \<^verbatim>\<open>await\<close> with a response, lines 105 to 122; \<open>t\<close> is the translation
  function and \<open>interval\<close> the timer of the closure.
\<close>

definition on_response ::
  "(jsstring \<Rightarrow> jsstring) \<Rightarrow> nat \<Rightarrow> Generation \<Rightarrow> poll_state \<Rightarrow> poll_state" where
  "on_response t interval gen s =
     (let s1 = s\<lparr>store_progress := (case gen_progress gen of None \<Rightarrow> 0 | Some p \<Rightarrow> p)\<rparr>;
          s2 = s1\<lparr>progressMessage :=
                  (case gen_progress_message gen of None \<Rightarrow> [] | Some m \<Rightarrow> m)\<rparr>
      in if gen_status gen = Completed
         then (let s3 = (case gen_lyrics gen of
                           None \<Rightarrow> s2
                         | Some l \<Rightarrow> if l \<noteq> [] then s2\<lparr>store_lyrics := l\<rparr> else s2);
                   s4 = (case gen_title gen of
                           None \<Rightarrow> s3
                         | Some l \<Rightarrow> if l \<noteq> [] then s3\<lparr>store_title := l\<rparr> else s3);
                   s5 = s4\<lparr>generationStatus := Status Completed\<rparr>;
                   s6 = s5\<lparr>successMessage := Some (t (js ''create.musicGeneratedSuccess''))\<rparr>;
                   s7 = s6\<lparr>progressMessage := []\<rparr>;
                   s8 = clearInterval interval s7;
                   s9 = s8\<lparr>pollIntervalRef := None\<rparr>
               in s9\<lparr>timeouts := timeouts s9 @ [200]\<rparr>)
         else if gen_status gen = Failed
         then (let s3 = s2\<lparr>generationStatus := Status Failed\<rparr>;
                   s4 = s3\<lparr>errorMessage :=
                          Some (case gen_error_message gen of
                                  None \<Rightarrow> js ''Generation failed.''
                                | Some m \<Rightarrow> if m \<noteq> [] then m else js ''Generation failed.'')\<rparr>;
                   s5 = s4\<lparr>progressMessage := []\<rparr>;
                   s6 = clearInterval interval s5
               in s6\<lparr>pollIntervalRef := None\<rparr>)
         else s2)"

text \<open>The \<^verbatim>\<open>catch\<close> block, lines 123 to 129.\<close>

definition on_error :: "(jsstring \<Rightarrow> jsstring) \<Rightarrow> nat \<Rightarrow> poll_state \<Rightarrow> poll_state" where
  "on_error t interval s =
     (let s1 = clearInterval interval s;
          s2 = s1\<lparr>pollIntervalRef := None\<rparr>;
          s3 = s2\<lparr>generationStatus := Status Failed\<rparr>;
          s4 = s3\<lparr>errorMessage := Some (t (js ''create.lostConnection''))\<rparr>
      in s4\<lparr>progressMessage := []\<rparr>)"

text \<open>
  The pending call number \<open>k\<close> settles. A rejection is thrown at \<^verbatim>\<open>await\<close>; with \<^verbatim>\<open>null\<close>
  the first statement after it throws on \<^verbatim>\<open>gen.progress\<close>; both reach the \<^verbatim>\<open>catch\<close> block
  before anything is written.
\<close>

definition settle ::
  "(jsstring \<Rightarrow> jsstring) \<Rightarrow> nat \<Rightarrow> fetch_result \<Rightarrow> poll_state \<Rightarrow> poll_state" where
  "settle t k r s =
     (if k < length (inflight s)
      then (let interval = fst (inflight s ! k);
                s1 = s\<lparr>inflight := take k (inflight s) @ drop (Suc k) (inflight s)\<rparr>
            in case r of
                 Resolved gen \<Rightarrow> on_response t interval gen s1
               | Rejected \<Rightarrow> on_error t interval s1
               | ResolvedNull \<Rightarrow> on_error t interval s1)
      else s)"

text \<open>\<^verbatim>\<open>cancelPolling()\<close>, lines 134 to 140.\<close>

definition cancelPolling :: "poll_state \<Rightarrow> poll_state" where
  "cancelPolling s =
     (let s1 = (case pollIntervalRef s of
                  None \<Rightarrow> s
                | Some i \<Rightarrow> (clearInterval i s)\<lparr>pollIntervalRef := None\<rparr>)
      in s1\<lparr>progressMessage := []\<rparr>)"

datatype event = PollTask jsstring | Tick nat | Settle nat fetch_result | CancelPolling

fun step :: "(jsstring \<Rightarrow> jsstring) \<Rightarrow> poll_state \<Rightarrow> event \<Rightarrow> poll_state" where
  "step t s (PollTask taskId) = pollTask taskId s"
| "step t s (Tick i) = tick i s"
| "step t s (Settle k r) = settle t k r s"
| "step t s CancelPolling = cancelPolling s"

definition run :: "(jsstring \<Rightarrow> jsstring) \<Rightarrow> event list \<Rightarrow> poll_state \<Rightarrow> poll_state" where
  "run t es s = foldl (step t) s es"

subsection \<open>Notions of the claims on polling\<close>

text \<open>Timer \<open>i\<close> is active; the calls that the loop of timer \<open>i\<close> has made.\<close>

definition active :: "nat \<Rightarrow> poll_state \<Rightarrow> bool" where
  "active i s = (i \<in> set (map fst (intervals s)))"

definition loop_fetches :: "nat \<Rightarrow> poll_state \<Rightarrow> (nat \<times> jsstring) list" where
  "loop_fetches i s = filter (\<lambda>(j, taskId). j = i) (fetches s)"

fun is_pollTask :: "event \<Rightarrow> bool" where
  "is_pollTask (PollTask taskId) = True"
| "is_pollTask e = False"

text \<open>The handles of the active timers were all given out already.\<close>

definition fresh :: "poll_state \<Rightarrow> bool" where
  "fresh s = list_all (\<lambda>j. j < nextTimer s) (map fst (intervals s))"


text \<open>
  A status sequence observed by one loop: the task is polled from the initial state and
  every tick of timer \<open>i\<close> is followed by its response, before the next tick.
\<close>

definition poll_events :: "nat \<Rightarrow> fetch_result list \<Rightarrow> event list" where
  "poll_events i rs = concat (map (\<lambda>r. [Tick i, Settle 0 r]) rs)"

definition polled :: "(jsstring \<Rightarrow> jsstring) \<Rightarrow> jsstring \<Rightarrow> fetch_result list \<Rightarrow> poll_state" where
  "polled t taskId rs = run t (PollTask taskId # poll_events 1 rs) poll_init"

definition in_progress :: "Generation \<Rightarrow> bool" where
  "in_progress gen = (gen_status gen = Pending \<or> gen_status gen = Processing)"

text \<open>The error that a failed response surfaces: its message when present and not empty.\<close>

definition surfaced_error :: "jsstring option \<Rightarrow> jsstring" where
  "surfaced_error em =
     (if em = None \<or> em = Some [] then js ''Generation failed.'' else the em)"

text \<open>A field of a completed response is applied when present and not empty.\<close>

definition applied :: "jsstring option \<Rightarrow> jsstring \<Rightarrow> jsstring" where
  "applied v old = (if v = None \<or> v = Some [] then old else the v)"

definition gen_of :: "GenerationStatus \<Rightarrow> Generation" where
  "gen_of st = \<lparr>gen_status = st, gen_progress = None, gen_progress_message = None,
     gen_lyrics = None, gen_title = None, gen_error_message = None\<rparr>"

text \<open>Two task ids for the examples.\<close>

definition task_A :: jsstring where "task_A = js ''A''"

text \<open>Task A is polled and the first tick has made its call, which is pending.\<close>

definition pending_A :: poll_state where
  "pending_A = run (\<lambda>key. key) [PollTask task_A, Tick 1] poll_init"

text \<open>The responses of the examples.\<close>

definition failed_gen :: Generation where
  "failed_gen = (gen_of Failed)\<lparr>gen_error_message := Some (js ''model unavailable'')\<rparr>"

definition completed_gen :: Generation where
  "completed_gen = (gen_of Completed)\<lparr>gen_progress := Some 100,
     gen_lyrics := Some (js ''la la''), gen_title := Some (js ''Song'')\<rparr>"

text \<open>The status sequence of the specification's example.\<close>

definition status_example :: "fetch_result list" where
  "status_example = map Resolved ([gen_of Pending, gen_of Processing, gen_of Processing]
     @ [gen_of Completed])"




section \<open>Lemmas on splitting and joining\<close>

lemma split_nl_nonempty: "split_nl s \<noteq> []"
  by (induction s) (auto split: list.splits)

lemma join_split_nl: "join_nl (split_nl s) = s"
proof (induction s)
  case Nil
  show ?case by simp
next
  case (Cons c cs)
  obtain l ls where sp: "split_nl cs = l # ls"
    using split_nl_nonempty [of cs] by (cases "split_nl cs") auto
  show ?case
  proof (cases "c = 0x0A")
    case True
    with Cons sp show ?thesis by simp
  next
    case False
    with Cons sp show ?thesis by (cases ls) auto
  qed
qed

section \<open>Lemmas on parseLyrics\<close>

lemma tagMatch_Some_iff:
  "tagMatch l = Some name \<longleftrightarrow>
     name \<noteq> [] \<and> list_all (\<lambda>x. \<not> isLineTerminator x) name \<and> l = 0x5B # name @ [0x5D]"
proof (cases l)
  case Nil
  then show ?thesis by (simp add: tagMatch_def)
next
  case (Cons c rest)
  show ?thesis
  proof (cases "rest = []")
    case True
    with Cons show ?thesis by (auto simp: tagMatch_def)
  next
    case False
    show ?thesis
    proof
      assume "tagMatch l = Some name"
      with Cons False have c: "c = 0x5B" and lr: "last rest = 0x5D"
          and nm: "butlast rest = name" and ne: "name \<noteq> []"
          and la: "list_all (\<lambda>x. \<not> isLineTerminator x) name"
        by (auto simp: tagMatch_def split: if_splits)
      have "butlast rest @ [last rest] = rest"
        by (rule append_butlast_last_id [OF False])
      then have "rest = name @ [0x5D]"
        unfolding nm lr by (rule sym)
      with Cons c ne la show "name \<noteq> [] \<and> list_all (\<lambda>x. \<not> isLineTerminator x) name
          \<and> l = 0x5B # name @ [0x5D]"
        by simp
    next
      assume "name \<noteq> [] \<and> list_all (\<lambda>x. \<not> isLineTerminator x) name \<and> l = 0x5B # name @ [0x5D]"
      with Cons show "tagMatch l = Some name"
        by (auto simp: tagMatch_def)
    qed
  qed
qed

lemma tagMatch_tag_name: "tagMatch l = Some name \<Longrightarrow> tag_name l = name"
  by (simp add: tagMatch_Some_iff tag_name_def)

lemma tagMatch_nonempty: "tagMatch l = Some name \<Longrightarrow> name \<noteq> []"
  by (simp add: tagMatch_Some_iff)

lemma is_tag_line_iff: "is_tag_line l \<longleftrightarrow> tagMatch l \<noteq> None"
proof (cases l)
  case Nil
  then show ?thesis by (simp add: is_tag_line_def tagMatch_def)
next
  case (Cons c rest)
  have lt: "\<not> isLineTerminator 0x5B" "\<not> isLineTerminator 0x5D"
    by (simp_all add: isLineTerminator_def)
  show ?thesis
  proof (cases "rest = []")
    case True
    with Cons show ?thesis by (simp add: is_tag_line_def tagMatch_def)
  next
    case False
    have br: "butlast rest @ [last rest] = rest"
      by (rule append_butlast_last_id [OF False])
    have len: "butlast rest \<noteq> [] \<longleftrightarrow> 2 \<le> length rest"
      by (cases rest rule: rev_cases) (auto simp: Suc_le_eq)
    have la: "list_all (\<lambda>x. \<not> isLineTerminator x) rest \<longleftrightarrow>
        list_all (\<lambda>x. \<not> isLineTerminator x) (butlast rest) \<and> \<not> isLineTerminator (last rest)"
      by (subst br [symmetric]) (simp del: append_butlast_last_id)
    from Cons False len la lt show ?thesis
      by (auto simp: is_tag_line_def tagMatch_def)
  qed
qed

lemma number_sections_append:
  "number_sections k (xs @ ys) = number_sections k xs @ number_sections (k + length xs) ys"
  by (simp add: number_sections_def enumerate_append_eq)

lemma number_sections_Nil: "number_sections k [] = []"
  by (simp add: number_sections_def)

lemma number_sections_Cons:
  "number_sections k ((tg, body) # xs) =
     \<lparr>tag = tg, lines = body, index = k\<rparr> # number_sections (Suc k) xs"
  by (simp add: number_sections_def)

lemma number_sections_single:
  "number_sections k [(tg, body)] = [\<lparr>tag = tg, lines = body, index = k\<rparr>]"
  by (simp add: number_sections_def)

lemma sections_of_body:
  assumes "list_all (\<lambda>l. \<not> is_tag_line l) cl"
  shows "sections_of tg cl = (if tg \<noteq> [] \<or> cl \<noteq> [] then [(tg, cl)] else [])"
proof -
  from assms have tw: "takeWhile (\<lambda>l. \<not> is_tag_line l) cl = cl"
    and dw: "dropWhile (\<lambda>l. \<not> is_tag_line l) cl = []"
    by (simp_all add: list_all_iff)
  show ?thesis by (simp add: sections_of.simps [of tg cl] tw dw)
qed

lemma sections_of_tag:
  assumes "list_all (\<lambda>l. \<not> is_tag_line l) cl" and "is_tag_line l"
  shows "sections_of tg (cl @ l # ls) =
     (if tg \<noteq> [] \<or> cl \<noteq> [] then [(tg, cl)] else []) @ sections_of (tag_name l) ls"
proof -
  from assms have tw: "takeWhile (\<lambda>l. \<not> is_tag_line l) (cl @ l # ls) = cl"
    and dw: "dropWhile (\<lambda>l. \<not> is_tag_line l) (cl @ l # ls) = l # ls"
    by (simp_all add: list_all_iff takeWhile_append2 dropWhile_append2)
  show ?thesis by (simp add: sections_of.simps [of tg "cl @ l # ls"] tw dw)
qed

lemma pl_fold:
  "list_all (\<lambda>l. \<not> is_tag_line l) (currentLines st) \<Longrightarrow>
   pl_finish (foldl pl_step st ls) =
     sections st @ number_sections (sectionIndex st) (sections_of (currentTag st) (currentLines st @ ls))"
proof (induction ls arbitrary: st)
  case Nil
  then show ?case
    by (simp add: sections_of_body pl_finish_def pl_pending_def pl_push_def
        number_sections_single number_sections_Nil disj_commute)
next
  case (Cons l ls)
  show ?case
  proof (cases "tagMatch l")
    case None
    then have nt: "\<not> is_tag_line l" by (simp add: is_tag_line_iff)
    let ?st = "st\<lparr>currentLines := currentLines st @ [l]\<rparr>"
    have step: "pl_step st l = ?st" using None by (simp add: pl_step_def)
    have "list_all (\<lambda>l. \<not> is_tag_line l) (currentLines ?st)"
      using Cons.prems nt by simp
    from Cons.IH [OF this] show ?thesis by (simp add: step)
  next
    case (Some name)
    then have it: "is_tag_line l" by (simp add: is_tag_line_iff)
    have tn: "tag_name l = name" using Some by (rule tagMatch_tag_name)
    let ?st = "pl_step st l"
    have cl: "currentLines ?st = []" and ct: "currentTag ?st = name"
      using Some by (simp_all add: pl_step_def)
    have "list_all (\<lambda>l. \<not> is_tag_line l) (currentLines ?st)" by (simp add: cl)
    from Cons.IH [OF this]
    have ih: "pl_finish (foldl pl_step ?st ls) =
        sections ?st @ number_sections (sectionIndex ?st) (sections_of name ls)"
      by (simp add: cl ct)
    have so: "sections_of (currentTag st) (currentLines st @ l # ls) =
        (if currentTag st \<noteq> [] \<or> currentLines st \<noteq> []
         then [(currentTag st, currentLines st)] else []) @ sections_of name ls"
      using sections_of_tag [OF Cons.prems it] tn by simp
    show ?thesis
    proof (cases "pl_pending st")
      case True
      then have "sections ?st = pl_push st" "sectionIndex ?st = Suc (sectionIndex st)"
        using Some by (simp_all add: pl_step_def)
      with ih True show ?thesis
        unfolding so
        by (simp add: number_sections_Cons pl_pending_def pl_push_def disj_commute)
    next
      case False
      then have "sections ?st = sections st" "sectionIndex ?st = sectionIndex st"
        using Some by (simp_all add: pl_step_def)
      with ih False show ?thesis
        unfolding so
        by (simp add: pl_pending_def)
    qed
  qed
qed

lemma parseLyrics_number:
  "parseLyrics lyrics = number_sections 0 (sections_of [] (split_nl lyrics))"
  using pl_fold [of pl_init "split_nl lyrics"]
  by (simp add: parseLyrics_def pl_init_def)


lemma is_tag_line_decomp:
  assumes "is_tag_line t"
  shows "tag_name t \<noteq> [] \<and> 0x5B # tag_name t @ [0x5D] = t"
proof -
  from assms obtain name where "tagMatch t = Some name"
    by (auto simp: is_tag_line_iff)
  then show ?thesis
    using tagMatch_tag_name [of t name] by (simp add: tagMatch_Some_iff)
qed

lemma render_section_mk:
  "render_section \<lparr>tag = tg, lines = body, index = i\<rparr> = tag_line tg @ body"
  by (simp add: render_section_def)

lemma render_number_sections:
  "concat (map render_section (number_sections k xs)) =
     concat (map (\<lambda>(tg, body). tag_line tg @ body) xs)"
proof (induction xs arbitrary: k)
  case Nil
  show ?case by (simp add: number_sections_Nil)
next
  case (Cons x xs)
  obtain tg body where x: "x = (tg, body)" by (cases x)
  show ?case
    by (simp add: x number_sections_Cons render_section_mk Cons.IH)
qed

lemma lines_number_sections:
  "concat (map lines (number_sections k xs)) = concat (map snd xs)"
proof (induction xs arbitrary: k)
  case Nil
  show ?case by (simp add: number_sections_Nil)
next
  case (Cons x xs)
  obtain tg body where x: "x = (tg, body)" by (cases x)
  show ?case
    by (simp add: x number_sections_Cons Cons.IH)
qed

lemma index_number_sections:
  "map index (number_sections k xs) = [k..<k + length xs]"
proof -
  have "index \<circ> (\<lambda>(i, tg, body). \<lparr>tag = tg, lines = body, index = i\<rparr>) = fst"
    by (auto simp: fun_eq_iff)
  then have "map index (number_sections k xs) = map fst (List.enumerate k xs)"
    by (simp add: number_sections_def)
  then show ?thesis by simp
qed

lemma length_number_sections: "length (number_sections k xs) = length xs"
  by (simp add: number_sections_def)

lemma tag_line_Nil: "tag_line [] = []"
  by (simp add: tag_line_def)

lemma sections_of_Nil:
  assumes "dropWhile (\<lambda>l. \<not> is_tag_line l) ls = []"
  shows "sections_of tg ls = (if tg \<noteq> [] \<or> ls \<noteq> [] then [(tg, ls)] else [])"
proof -
  have "takeWhile (\<lambda>l. \<not> is_tag_line l) ls @ dropWhile (\<lambda>l. \<not> is_tag_line l) ls = ls"
    by (rule takeWhile_dropWhile_id)
  with assms have tw: "takeWhile (\<lambda>l. \<not> is_tag_line l) ls = ls" by simp
  show ?thesis by (simp add: sections_of.simps [of tg ls] assms tw)
qed

lemma sections_of_Cons:
  assumes "dropWhile (\<lambda>l. \<not> is_tag_line l) ls = t # rest"
  shows "sections_of tg ls =
     (if tg \<noteq> [] \<or> takeWhile (\<lambda>l. \<not> is_tag_line l) ls \<noteq> []
      then [(tg, takeWhile (\<lambda>l. \<not> is_tag_line l) ls)] else [])
     @ sections_of (tag_name t) rest"
  by (simp add: sections_of.simps [of tg ls] assms)

lemma dropWhile_Cons_parts:
  assumes "dropWhile (\<lambda>l. \<not> is_tag_line l) ls = t # rest"
  shows "is_tag_line t" and "takeWhile (\<lambda>l. \<not> is_tag_line l) ls @ t # rest = ls"
proof -
  show "is_tag_line t"
    using hd_dropWhile [of "\<lambda>l. \<not> is_tag_line l" ls] assms by simp
  have "takeWhile (\<lambda>l. \<not> is_tag_line l) ls @ dropWhile (\<lambda>l. \<not> is_tag_line l) ls = ls"
    by (rule takeWhile_dropWhile_id)
  then show "takeWhile (\<lambda>l. \<not> is_tag_line l) ls @ t # rest = ls"
    by (simp only: assms)
qed

lemma render_emit:
  "concat (map (\<lambda>(tg, body). tag_line tg @ body)
     (if tg \<noteq> [] \<or> body \<noteq> [] then [(tg, body)] else [])) = tag_line tg @ body"
  by (simp add: tag_line_def)

lemma render_sections_of:
  "concat (map (\<lambda>(tg, body). tag_line tg @ body) (sections_of tg ls)) = tag_line tg @ ls"
proof (induction tg ls rule: sections_of.induct)
  case (1 tg ls)
  let ?P = "\<lambda>l. \<not> is_tag_line l"
  show ?case
  proof (cases "dropWhile ?P ls")
    case Nil
    show ?thesis
      by (simp only: sections_of_Nil [OF Nil] render_emit)
  next
    case (Cons t rest)
    note parts = dropWhile_Cons_parts [OF Cons]
    have t: "tag_line (tag_name t) = [t]"
      using is_tag_line_decomp [OF parts(1)] by (simp add: tag_line_def)
    from "1.IH" [OF refl Cons]
    have ih: "concat (map (\<lambda>(tg, body). tag_line tg @ body) (sections_of (tag_name t) rest))
        = t # rest"
      by (simp add: t)
    have "concat (map (\<lambda>(tg, body). tag_line tg @ body) (sections_of tg ls))
        = (tag_line tg @ takeWhile ?P ls) @ t # rest"
      by (simp only: sections_of_Cons [OF Cons] map_append concat_append render_emit ih)
    also have "\<dots> = tag_line tg @ (takeWhile ?P ls @ t # rest)"
      by simp
    finally show ?thesis
      by (simp only: parts(2))
  qed
qed

lemma bodies_sections_of:
  "concat (map snd (sections_of tg ls)) = filter (\<lambda>l. \<not> is_tag_line l) ls"
proof (induction tg ls rule: sections_of.induct)
  case (1 tg ls)
  let ?P = "\<lambda>l. \<not> is_tag_line l"
  have ft: "filter ?P (takeWhile ?P ls) = takeWhile ?P ls"
    by (rule filter_True) (auto dest: set_takeWhileD)
  show ?case
  proof (cases "dropWhile ?P ls")
    case Nil
    then have "filter ?P ls = ls"
      by (simp add: filter_id_conv)
    then show ?thesis
      by (simp add: sections_of_Nil [OF Nil])
  next
    case (Cons t rest)
    note parts = dropWhile_Cons_parts [OF Cons]
    from "1.IH" [OF refl Cons]
    have ih: "concat (map snd (sections_of (tag_name t) rest)) = filter ?P rest" .
    have "filter ?P (takeWhile ?P ls @ t # rest) = takeWhile ?P ls @ filter ?P rest"
      using ft parts(1) by simp
    then have "filter ?P ls = takeWhile ?P ls @ filter ?P rest"
      by (simp only: parts(2))
    then show ?thesis
      by (simp add: sections_of_Cons [OF Cons] ih)
  qed
qed

lemma render_parseLyrics:
  "concat (map render_section (parseLyrics lyrics)) = split_nl lyrics"
  by (simp add: parseLyrics_number render_number_sections render_sections_of tag_line_Nil)

section \<open>Claims on parseLyrics\<close>

lemmas pl_eval = parseLyrics_def js_def pl_init_def pl_step_def tagMatch_def pl_finish_def
  pl_pending_def pl_push_def isLineTerminator_def

text \<open>
  Claim C7. For every input string, \<^verbatim>\<open>parseLyrics\<close> returns the sections of the
  specification's scan of the lines: a line of the form \<^verbatim>\<open>[TagName]\<close> starts a new section,
  every other line is added to the lines of the current section, and the pending section
  is emitted at a tag line and at the end of the input when it has a non-empty tag or a
  line; the emitted sections are numbered from 0. Here \<^verbatim>\<open>[TagName]\<close> is what the regular
  expression of the code accepts: a name of one or more code units, the whole line free
  of line terminators. On the example of the specification the result is the section
  Verse with line1, line2 and index 0, and the section Chorus with line3 and index 1.
\<close>

theorem parseLyrics_scan:
  "parseLyrics lyrics = number_sections 0 (sections_of [] (split_nl lyrics))
   \<and> parseLyrics lyrics_example =
       [\<lparr>tag = js ''Verse'', lines = [js ''line1'', js ''line2''], index = 0\<rparr>,
        \<lparr>tag = js ''Chorus'', lines = [js ''line3''], index = 1\<rparr>]"
proof
  show "parseLyrics lyrics = number_sections 0 (sections_of [] (split_nl lyrics))"
    by (rule parseLyrics_number)
  show "parseLyrics lyrics_example =
       [\<lparr>tag = js ''Verse'', lines = [js ''line1'', js ''line2''], index = 0\<rparr>,
        \<lparr>tag = js ''Chorus'', lines = [js ''line3''], index = 1\<rparr>]"
    by (simp add: lyrics_example_def pl_eval)
qed

theorem parseLyrics_scan_witness:
  "parseLyrics lyrics_example2 =
     [\<lparr>tag = [], lines = [js ''a''], index = 0\<rparr>,
      \<lparr>tag = js ''T'', lines = [js ''b''], index = 1\<rparr>]"
proof -
  have "number_sections 0 (sections_of [] (split_nl lyrics_example2)) =
     [\<lparr>tag = [], lines = [js ''a''], index = 0\<rparr>,
      \<lparr>tag = js ''T'', lines = [js ''b''], index = 1\<rparr>]"
    by code_simp
  with parseLyrics_scan [of lyrics_example2] show ?thesis by simp
qed

text \<open>
  Claim C9. Round trip: for every input string, writing every section of
  \<^verbatim>\<open>parseLyrics\<close> back as its tag line (when the tag is not empty) followed by its lines,
  and joining with line feeds, gives the input again; and the lines of the sections, in
  order, are the lines of the input that are no tag lines, in their original order.
\<close>

theorem parseLyrics_roundtrip:
  "join_nl (concat (map render_section (parseLyrics lyrics))) = lyrics
   \<and> concat (map lines (parseLyrics lyrics)) =
       filter (\<lambda>l. \<not> is_tag_line l) (split_nl lyrics)"
  by (simp add: render_parseLyrics join_split_nl)
     (simp add: parseLyrics_number lines_number_sections bodies_sections_of)

theorem parseLyrics_roundtrip_witness:
  "join_nl (concat (map render_section (parseLyrics lyrics_example))) = lyrics_example
   \<and> concat (map lines (parseLyrics lyrics_example)) = [js ''line1'', js ''line2'', js ''line3'']"
proof -
  have "filter (\<lambda>l. \<not> is_tag_line l) (split_nl lyrics_example) =
      [js ''line1'', js ''line2'', js ''line3'']"
    by (simp add: lyrics_example_def js_def is_tag_line_def isLineTerminator_def)
  with parseLyrics_roundtrip [of lyrics_example] show ?thesis by simp
qed

text \<open>
  Claim C10. For every input string, the index of the k-th section (from 0) of the list
  returned by \<^verbatim>\<open>parseLyrics\<close> is k.
\<close>

theorem parseLyrics_index:
  "map index (parseLyrics lyrics) = [0..<length (parseLyrics lyrics)]
   \<and> (\<forall>k < length (parseLyrics lyrics). index (parseLyrics lyrics ! k) = k)"
proof -
  have m: "map index (parseLyrics lyrics) = [0..<length (parseLyrics lyrics)]"
    by (simp add: parseLyrics_number index_number_sections length_number_sections)
  have "index (parseLyrics lyrics ! k) = k" if "k < length (parseLyrics lyrics)" for k
  proof -
    from that have "index (parseLyrics lyrics ! k) = map index (parseLyrics lyrics) ! k"
      by simp
    also have "\<dots> = k" using that by (simp add: m)
    finally show ?thesis .
  qed
  with m show ?thesis by blast
qed

theorem parseLyrics_index_witness:
  "length (parseLyrics lyrics_example) = 2
   \<and> index (parseLyrics lyrics_example ! 0) = 0
   \<and> index (parseLyrics lyrics_example ! 1) = 1"
proof -
  have len: "length (parseLyrics lyrics_example) = 2"
    by (simp add: lyrics_example_def pl_eval)
  from parseLyrics_index [of lyrics_example]
  have "\<forall>k < 2. index (parseLyrics lyrics_example ! k) = k"
    by (simp add: len)
  then have "index (parseLyrics lyrics_example ! 0) = 0"
    and "index (parseLyrics lyrics_example ! 1) = 1"
    by simp_all
  with len show ?thesis by simp
qed

section \<open>Lemmas on the timed lines\<close>

lemma findActive_loop_takeWhile:
  "i \<le> length lns \<Longrightarrow>
   findActive_loop lns t i a =
     (if takeWhile (\<lambda>l. time l \<le> t) (drop i lns) = [] then a
      else int (i + length (takeWhile (\<lambda>l. time l \<le> t) (drop i lns))) - 1)"
proof (induction lns t i a rule: findActive_loop.induct)
  case (1 lns t i a)
  show ?case
  proof (cases "i < length lns")
    case False
    then show ?thesis by (simp add: findActive_loop.simps [of lns t i a])
  next
    case True
    then have dr: "drop i lns = lns ! i # drop (Suc i) lns"
      by (simp add: Cons_nth_drop_Suc)
    show ?thesis
    proof (cases "time (lns ! i) \<le> t")
      case False
      with True show ?thesis by (simp add: findActive_loop.simps [of lns t i a] dr)
    next
      case le: True
      from True have "i + 1 \<le> length lns" by simp
      from "1.IH" [OF True le this]
      have "findActive_loop lns t (i + 1) (int i) =
         (if takeWhile (\<lambda>l. time l \<le> t) (drop (Suc i) lns) = [] then int i
          else int (i + 1 + length (takeWhile (\<lambda>l. time l \<le> t) (drop (Suc i) lns))) - 1)"
        by simp
      with True le show ?thesis
        by (simp add: findActive_loop.simps [of lns t i a] dr)
    qed
  qed
qed

lemma findActiveLRCIndex_takeWhile:
  "findActiveLRCIndex lns t = int (length (takeWhile (\<lambda>l. time l \<le> t) lns)) - 1"
  using findActive_loop_takeWhile [of 0 lns t "- 1"]
  by (simp add: findActiveLRCIndex_def)

lemma sorted_takeWhile_filter:
  "sorted (map time lns) \<Longrightarrow>
   takeWhile (\<lambda>l. time l \<le> t) lns = filter (\<lambda>l. time l \<le> t) lns"
proof (induction lns)
  case Nil
  show ?case by simp
next
  case (Cons x xs)
  show ?case
  proof (cases "time x \<le> t")
    case True
    with Cons show ?thesis by simp
  next
    case False
    from Cons.prems have "\<forall>y \<in> set xs. time x \<le> time y" by simp
    with False have "filter (\<lambda>l. time l \<le> t) xs = []"
      by (auto simp: filter_empty_conv)
    with False show ?thesis by simp
  qed
qed

lemma sorted_nth_takeWhile:
  assumes "sorted (map time lns)" and "i < length lns"
  shows "time (lns ! i) \<le> t \<longleftrightarrow> i < length (takeWhile (\<lambda>l. time l \<le> t) lns)"
proof
  assume le: "time (lns ! i) \<le> t"
  have "\<And>j. j < Suc i \<Longrightarrow> time (lns ! j) \<le> t"
  proof -
    fix j assume "j < Suc i"
    then have "j \<le> i" by simp
    with assms have "map time lns ! j \<le> map time lns ! i"
      by (intro sorted_nth_mono) simp_all
    with assms \<open>j \<le> i\<close> le show "time (lns ! j) \<le> t" by simp
  qed
  then have "Suc i \<le> length (takeWhile (\<lambda>l. time l \<le> t) lns)"
    using assms(2) by (intro length_takeWhile_less_P_nth) simp_all
  then show "i < length (takeWhile (\<lambda>l. time l \<le> t) lns)" by simp
next
  assume lt: "i < length (takeWhile (\<lambda>l. time l \<le> t) lns)"
  then have "takeWhile (\<lambda>l. time l \<le> t) lns ! i \<in> set (takeWhile (\<lambda>l. time l \<le> t) lns)"
    by simp
  then have "time (takeWhile (\<lambda>l. time l \<le> t) lns ! i) \<le> t"
    by (auto dest: set_takeWhileD)
  with lt show "time (lns ! i) \<le> t" by (simp add: takeWhile_nth)
qed






subsection \<open>Rounding\<close>


















subsection \<open>The loop of lrcToPlain\<close>

lemma ltp_step_None:
  "lrcMatch raw = None \<Longrightarrow> ltp_step st raw = st\<lparr>result := result st @ [raw]\<rparr>"
  by (simp add: ltp_step_def)

lemma ltp_step_skip:
  "lrcMatch raw \<noteq> None \<Longrightarrow> \<not> ltp_emitted raw \<Longrightarrow> ltp_step st raw = st"
  by (auto simp: ltp_step_def ltp_emitted_def Let_def)

lemma ltp_step_emitted:
  assumes "ltp_emitted raw"
  shows "ltp_step st raw =
     \<lparr>result = result st
        @ (if result st \<noteq> [] \<and> double_sub (ltp_time raw) (prevTime st) > 6 then [[]] else [])
        @ [ltp_text raw],
      prevTime = ltp_time raw\<rparr>"
proof -
  from assms obtain g1 g2 g3 g4 where m: "lrcMatch raw = Some (g1, g2, g3, g4)"
    and t: "trim g4 \<noteq> []"
    by (auto simp: ltp_emitted_def split: option.splits)
  show ?thesis
    using t by (simp add: ltp_step_def m ltp_time_def ltp_text_def lrc_time_def Let_def)
qed

lemma ltp_step_not_emitted:
  "\<not> ltp_emitted raw \<Longrightarrow>
   ltp_step st raw = st\<lparr>result := result st @ ltp_passed [raw]\<rparr>"
  by (cases "lrcMatch raw = None") (simp_all add: ltp_step_None ltp_step_skip ltp_passed_def)

lemma ltp_fold_not_emitted:
  "list_all (\<lambda>l. \<not> ltp_emitted l) mid \<Longrightarrow>
   foldl ltp_step st mid = st\<lparr>result := result st @ ltp_passed mid\<rparr>"
proof (induction mid arbitrary: st)
  case Nil
  show ?case by (simp add: ltp_passed_def)
next
  case (Cons l mid)
  then have l: "\<not> ltp_emitted l" and mid: "list_all (\<lambda>l. \<not> ltp_emitted l) mid"
    by simp_all
  have "foldl ltp_step st (l # mid) = foldl ltp_step (ltp_step st l) mid" by simp
  also have "\<dots> = (ltp_step st l)\<lparr>result := result (ltp_step st l) @ ltp_passed mid\<rparr>"
    by (rule Cons.IH [OF mid])
  also have "\<dots> = st\<lparr>result := result st @ ltp_passed (l # mid)\<rparr>"
    by (simp add: ltp_step_not_emitted [OF l] ltp_passed_def)
  finally show ?case .
qed

lemma ltp_step_grows: "\<exists>ext. result (ltp_step st raw) = result st @ ext"
proof (cases "ltp_emitted raw")
  case True
  then show ?thesis by (simp add: ltp_step_emitted)
next
  case False
  then show ?thesis by (simp add: ltp_step_not_emitted)
qed

lemma ltp_fold_grows: "\<exists>ext. result (foldl ltp_step st ls) = result st @ ext"
proof (induction ls arbitrary: st)
  case Nil
  show ?case by simp
next
  case (Cons l ls)
  obtain e1 where e1: "result (ltp_step st l) = result st @ e1"
    using ltp_step_grows by blast
  obtain e2 where "result (foldl ltp_step (ltp_step st l) ls) = result (ltp_step st l) @ e2"
    using Cons.IH by blast
  with e1 have "result (foldl ltp_step st (l # ls)) = result st @ (e1 @ e2)" by simp
  then show ?case by blast
qed

lemma ltp_lines_snoc_emitted:
  assumes "ltp_emitted la"
  shows "ltp_lines (pre @ [la]) \<noteq> []"
    and "last (ltp_lines (pre @ [la])) = ltp_text la"
    and "prevTime (foldl ltp_step ltp_init (pre @ [la])) = ltp_time la"
  by (simp_all add: ltp_lines_def ltp_step_emitted [OF assms])

lemma lrcToPlain_between:
  assumes "ltp_emitted la" and "ltp_emitted lb" and "list_all (\<lambda>l. \<not> ltp_emitted l) mid"
  shows "last (ltp_lines (pre @ [la])) = ltp_text la
     \<and> ltp_lines (pre @ la # mid @ [lb]) =
         ltp_lines (pre @ [la]) @ ltp_passed mid
         @ (if double_sub (ltp_time lb) (ltp_time la) > 6 then [[]] else []) @ [ltp_text lb]
     \<and> take (length (ltp_lines (pre @ la # mid @ [lb]))) (ltp_lines (pre @ la # mid @ lb # post))
         = ltp_lines (pre @ la # mid @ [lb])
     \<and> lrcToPlain lrc = join_nl (ltp_lines (split_nl lrc))"
proof (intro conjI)
  define sa where "sa = foldl ltp_step ltp_init (pre @ [la])"
  note a = ltp_lines_snoc_emitted [OF assms(1), of pre]
  have ne: "result sa \<noteq> []" and pt: "prevTime sa = ltp_time la"
    and ra: "ltp_lines (pre @ [la]) = result sa"
    using a(1,3) by (simp_all add: sa_def ltp_lines_def)
  show "last (ltp_lines (pre @ [la])) = ltp_text la" by (rule a(2))
  have "foldl ltp_step ltp_init (pre @ la # mid @ [lb])
      = ltp_step (foldl ltp_step sa mid) lb"
    by (simp add: sa_def)
  also have "\<dots> = ltp_step (sa\<lparr>result := result sa @ ltp_passed mid\<rparr>) lb"
    by (simp only: ltp_fold_not_emitted [OF assms(3)])
  finally have "ltp_lines (pre @ la # mid @ [lb]) =
      result (ltp_step (sa\<lparr>result := result sa @ ltp_passed mid\<rparr>) lb)"
    by (simp only: ltp_lines_def)
  also have "\<dots> = result sa @ ltp_passed mid
         @ (if double_sub (ltp_time lb) (ltp_time la) > 6 then [[]] else []) @ [ltp_text lb]"
    using ne by (simp add: ltp_step_emitted [OF assms(2)] pt)
  finally show "ltp_lines (pre @ la # mid @ [lb]) =
         ltp_lines (pre @ [la]) @ ltp_passed mid
         @ (if double_sub (ltp_time lb) (ltp_time la) > 6 then [[]] else []) @ [ltp_text lb]"
    by (simp only: ra)
  have "pre @ la # mid @ lb # post = (pre @ la # mid @ [lb]) @ post" by simp
  then have "foldl ltp_step ltp_init (pre @ la # mid @ lb # post)
      = foldl ltp_step (foldl ltp_step ltp_init (pre @ la # mid @ [lb])) post"
    by (simp only: foldl_append)
  moreover obtain ext where
    "result (foldl ltp_step (foldl ltp_step ltp_init (pre @ la # mid @ [lb])) post)
      = result (foldl ltp_step ltp_init (pre @ la # mid @ [lb])) @ ext"
    using ltp_fold_grows by blast
  ultimately have "ltp_lines (pre @ la # mid @ lb # post) = ltp_lines (pre @ la # mid @ [lb]) @ ext"
    by (simp only: ltp_lines_def)
  then show "take (length (ltp_lines (pre @ la # mid @ [lb])))
      (ltp_lines (pre @ la # mid @ lb # post)) = ltp_lines (pre @ la # mid @ [lb])"
    by simp
  show "lrcToPlain lrc = join_nl (ltp_lines (split_nl lrc))"
    by (simp add: lrcToPlain_def)
qed


section \<open>Claims on the timed lines\<close>



text \<open>
  Claim C8. \<^verbatim>\<open>lrcToPlain\<close> is to insert one blank line between two consecutive emitted
  timed lines when their timestamps are more than 6 seconds apart and none when the gap
  is at most 6 seconds. The loop tests the rounded difference of the two rounded times
  (\<open>lrcToPlain_between\<close>), and that test does not always agree with the timestamps: the
  lines at 2.05 and 8.05 seconds are exactly 6 seconds apart, the difference of the two
  doubles is above 6, and a blank line is inserted, while the lines at 1.00 and 7.00
  seconds, also 6 seconds apart, get none.
\<close>

theorem lrcToPlain_boundary:
  "ltp_emitted boundary_l1 \<and> ltp_emitted boundary_l2
   \<and> ltp_seconds boundary_l2 - ltp_seconds boundary_l1 = 6
   \<and> double_sub (ltp_time boundary_l2) (ltp_time boundary_l1)
       = 6755399441055745 / 1125899906842624
   \<and> lrcToPlain boundary_example = js ''a'' @ [0x0A, 0x0A] @ js ''b''
   \<and> ltp_seconds plain_l2 - ltp_seconds plain_l1 = 6
   \<and> lrcToPlain (plain_l1 @ 0x0A # plain_l2) = js ''a'' @ 0x0A # js ''b''"
proof (intro conjI)
  show "ltp_emitted boundary_l1" by code_simp
  show "ltp_emitted boundary_l2" by code_simp
  show "ltp_seconds boundary_l2 - ltp_seconds boundary_l1 = 6" by code_simp
  show "double_sub (ltp_time boundary_l2) (ltp_time boundary_l1)
       = 6755399441055745 / 1125899906842624" by code_simp
  show "lrcToPlain boundary_example = js ''a'' @ [0x0A, 0x0A] @ js ''b''" by code_simp
  show "ltp_seconds plain_l2 - ltp_seconds plain_l1 = 6" by code_simp
  show "lrcToPlain (plain_l1 @ 0x0A # plain_l2) = js ''a'' @ 0x0A # js ''b''" by code_simp
qed

text \<open>
  Claim C6. For every list of timed lines with non-decreasing times and every playback
  time \<open>t\<close>, the result \<open>r\<close> of \<^verbatim>\<open>findActiveLRCIndex\<close> is the index of the last line
  with a time of at most \<open>t\<close>: it lies between -1 and the last index, and a line has a
  time of at most \<open>t\<close> exactly when its index is at most \<open>r\<close>. It is -1 when the list is
  empty or \<open>t\<close> is before the time of the first line. On the lines with times 0, 5 and
  10 it is 1 for 7, 0 for 4 and -1 for -1.
\<close>

theorem findActiveLRCIndex_last:
  "sorted (map time lns) \<Longrightarrow>
     - 1 \<le> findActiveLRCIndex lns t
     \<and> findActiveLRCIndex lns t < int (length lns)
     \<and> (\<forall>i < length lns. (time (lns ! i) \<le> t) = (int i \<le> findActiveLRCIndex lns t))
     \<and> (lns = [] \<or> t < time (hd lns) \<longrightarrow> findActiveLRCIndex lns t = - 1)
     \<and> findActiveLRCIndex timed_example 7 = 1
     \<and> findActiveLRCIndex timed_example 4 = 0
     \<and> findActiveLRCIndex timed_example (- 1) = - 1"
proof -
  assume s: "sorted (map time lns)"
  let ?n = "length (takeWhile (\<lambda>l. time l \<le> t) lns)"
  have r: "findActiveLRCIndex lns t = int ?n - 1"
    by (rule findActiveLRCIndex_takeWhile)
  have a: "- 1 \<le> findActiveLRCIndex lns t" by (simp add: r)
  have "?n \<le> length lns" by (rule length_takeWhile_le)
  then have b: "findActiveLRCIndex lns t < int (length lns)" by (simp add: r)
  have c: "\<forall>i < length lns. (time (lns ! i) \<le> t) = (int i \<le> findActiveLRCIndex lns t)"
  proof (intro allI impI)
    fix i assume "i < length lns"
    from sorted_nth_takeWhile [OF s this, of t] show
      "(time (lns ! i) \<le> t) = (int i \<le> findActiveLRCIndex lns t)"
      by (simp add: r)
  qed
  have d: "lns = [] \<or> t < time (hd lns) \<longrightarrow> findActiveLRCIndex lns t = - 1"
    by (cases lns) (auto simp: findActiveLRCIndex_takeWhile)
  have e: "findActiveLRCIndex timed_example 7 = 1"
    "findActiveLRCIndex timed_example 4 = 0"
    "findActiveLRCIndex timed_example (- 1) = - 1"
    by (simp_all add: findActiveLRCIndex_takeWhile timed_example_def)
  from a b c d e show ?thesis by blast
qed

theorem findActiveLRCIndex_last_witness:
  "sorted (map time timed_example) \<and> findActiveLRCIndex timed_example 6 = 1"
proof -
  have s: "sorted (map time timed_example)" by (simp add: timed_example_def)
  let ?r = "findActiveLRCIndex timed_example 6"
  from findActiveLRCIndex_last [OF s, of 6]
  have c: "\<forall>i < length timed_example. (time (timed_example ! i) \<le> 6) = (int i \<le> ?r)"
    by blast
  have "length timed_example = 3" by (simp add: timed_example_def)
  with c have "(time (timed_example ! 1) \<le> 6) = (int 1 \<le> ?r)"
    and "(time (timed_example ! 2) \<le> 6) = (int 2 \<le> ?r)"
    by simp_all
  then have "?r = 1" by (simp add: timed_example_def)
  with s show ?thesis by simp
qed

section \<open>Lemmas on polling\<close>

lemma active_clearInterval: "active j (clearInterval i s) \<longleftrightarrow> active j s \<and> j \<noteq> i"
  by (auto simp: active_def clearInterval_def)

lemma fields_clearInterval:
  "nextTimer (clearInterval i s) = nextTimer s"
  "fetches (clearInterval i s) = fetches s"
  "inflight (clearInterval i s) = inflight s"
  "pollIntervalRef (clearInterval i s) = pollIntervalRef s"
  by (simp_all add: clearInterval_def)

lemma fresh_alt: "fresh s \<longleftrightarrow> (\<forall>j. active j s \<longrightarrow> j < nextTimer s)"
  by (auto simp: fresh_def active_def list_all_iff)

lemma active_pollTask:
  "active j (pollTask taskId s) \<longleftrightarrow>
     j = nextTimer s \<or> (active j s \<and> pollIntervalRef s \<noteq> Some j)"
  by (cases "pollIntervalRef s")
     (auto simp: pollTask_def Let_def active_def clearInterval_def)

lemma nextTimer_pollTask: "nextTimer (pollTask taskId s) = Suc (nextTimer s)"
  by (cases "pollIntervalRef s") (simp_all add: pollTask_def Let_def clearInterval_def)

lemma fetches_pollTask: "fetches (pollTask taskId s) = fetches s"
  by (cases "pollIntervalRef s") (simp_all add: pollTask_def Let_def clearInterval_def)

lemma tick_fields:
  "intervals (tick i s) = intervals s" "nextTimer (tick i s) = nextTimer s"
  "pollIntervalRef (tick i s) = pollIntervalRef s"
  by (simp_all add: tick_def split: option.splits)

lemma active_tick: "active j (tick i s) = active j s"
  by (simp add: active_def tick_fields)

lemma fetches_tick:
  "fetches (tick i s) = fetches s @ (if active i s then [(i, the (map_of (intervals s) i))] else [])"
proof (cases "map_of (intervals s) i")
  case None
  then have "\<not> active i s" by (simp add: active_def map_of_eq_None_iff)
  with None show ?thesis by (simp add: tick_def)
next
  case (Some a)
  then have "active i s"
    by (metis active_def map_of_eq_None_iff option.distinct(1) set_map)
  with Some show ?thesis by (simp add: tick_def)
qed

lemma on_error_fields:
  "generationStatus (on_error t i s) = Status Failed"
  "errorMessage (on_error t i s) = Some (t (js ''create.lostConnection''))"
  "progressMessage (on_error t i s) = []"
  "pollIntervalRef (on_error t i s) = None"
  "intervals (on_error t i s) = filter (\<lambda>(j, taskId). j \<noteq> i) (intervals s)"
  "nextTimer (on_error t i s) = nextTimer s"
  "fetches (on_error t i s) = fetches s"
  "inflight (on_error t i s) = inflight s"
  "timeouts (on_error t i s) = timeouts s"
  by (simp_all add: on_error_def clearInterval_def Let_def)

lemma on_response_frame:
  "nextTimer (on_response t i gen s) = nextTimer s"
  "fetches (on_response t i gen s) = fetches s"
  "inflight (on_response t i gen s) = inflight s"
  by (simp_all add: on_response_def clearInterval_def Let_def split: option.splits)

lemma intervals_on_response:
  "intervals (on_response t i gen s) =
     (if gen_status gen = Completed \<or> gen_status gen = Failed
      then filter (\<lambda>(j, taskId). j \<noteq> i) (intervals s) else intervals s)"
  by (simp add: on_response_def clearInterval_def Let_def split: option.splits)

lemma settle_frame:
  "nextTimer (settle t k r s) = nextTimer s"
  "fetches (settle t k r s) = fetches s"
  by (simp_all add: settle_def Let_def on_error_fields on_response_frame split: fetch_result.splits)

lemma active_settle: "active j (settle t k r s) \<Longrightarrow> active j s"
  by (auto simp: settle_def Let_def active_def on_error_fields intervals_on_response
      split: fetch_result.splits if_splits)

lemma cancel_frame:
  "nextTimer (cancelPolling s) = nextTimer s"
  "fetches (cancelPolling s) = fetches s"
  by (simp_all add: cancelPolling_def Let_def clearInterval_def split: option.splits)

lemma active_cancel: "active j (cancelPolling s) \<Longrightarrow> active j s"
  by (auto simp: cancelPolling_def Let_def active_def clearInterval_def split: option.splits)

lemma fresh_step: "fresh s \<Longrightarrow> fresh (step t s e)"
proof (cases e)
  case (PollTask taskId)
  assume "fresh s"
  then show ?thesis
    unfolding fresh_alt PollTask by (auto simp: active_pollTask nextTimer_pollTask less_Suc_eq)
next
  case (Tick i)
  assume "fresh s"
  then show ?thesis unfolding fresh_alt Tick by (simp add: active_tick tick_fields)
next
  case (Settle k r)
  assume "fresh s"
  then show ?thesis
    unfolding fresh_alt Settle by (auto simp: settle_frame dest: active_settle)
next
  case CancelPolling
  assume "fresh s"
  then show ?thesis
    unfolding fresh_alt CancelPolling by (auto simp: cancel_frame dest: active_cancel)
qed

lemma fresh_run: "fresh s \<Longrightarrow> fresh (run t es s)"
  unfolding run_def by (induction es arbitrary: s) (simp_all add: fresh_step)

lemma fresh_init: "fresh poll_init"
  by (simp add: fresh_def poll_init_def)

lemma dead_step:
  assumes "\<not> active i s" and "i < nextTimer s"
  shows "\<not> active i (step t s e) \<and> i < nextTimer (step t s e)
     \<and> loop_fetches i (step t s e) = loop_fetches i s"
proof (cases e)
  case (PollTask taskId)
  with assms show ?thesis
    by (simp add: active_pollTask nextTimer_pollTask fetches_pollTask loop_fetches_def)
next
  case (Tick j)
  with assms show ?thesis
    by (auto simp: active_tick tick_fields fetches_tick loop_fetches_def)
next
  case (Settle k r)
  with assms show ?thesis
    by (auto simp: settle_frame loop_fetches_def dest: active_settle)
next
  case CancelPolling
  with assms show ?thesis
    by (auto simp: cancel_frame loop_fetches_def dest: active_cancel)
qed

lemma dead_run:
  "\<not> active i s \<Longrightarrow> i < nextTimer s \<Longrightarrow>
   \<not> active i (run t es s) \<and> i < nextTimer (run t es s)
     \<and> loop_fetches i (run t es s) = loop_fetches i s"
proof (induction es arbitrary: s)
  case Nil
  then show ?case by (simp add: run_def)
next
  case (Cons e es)
  from dead_step [OF Cons.prems, of t e]
  have 1: "\<not> active i (step t s e)" and 2: "i < nextTimer (step t s e)"
    and 3: "loop_fetches i (step t s e) = loop_fetches i s"
    by simp_all
  from Cons.IH [OF 1 2] 3 show ?case by (simp add: run_def)
qed

lemma quiet_step:
  assumes "intervals s = []" and "\<not> is_pollTask e"
  shows "intervals (step t s e) = [] \<and> fetches (step t s e) = fetches s"
proof (cases e)
  case (PollTask taskId)
  with assms show ?thesis by simp
next
  case (Tick j)
  with assms show ?thesis by (simp add: tick_def)
next
  case (Settle k r)
  with assms show ?thesis
    by (simp add: settle_def Let_def on_error_fields on_response_frame
        intervals_on_response split: fetch_result.splits)
next
  case CancelPolling
  with assms show ?thesis
    by (simp add: cancelPolling_def Let_def clearInterval_def split: option.splits)
qed

lemma quiet_run:
  "intervals s = [] \<Longrightarrow> list_all (\<lambda>e. \<not> is_pollTask e) es \<Longrightarrow>
   intervals (run t es s) = [] \<and> fetches (run t es s) = fetches s"
proof (induction es arbitrary: s)
  case Nil
  then show ?case by (simp add: run_def)
next
  case (Cons e es)
  then have e: "\<not> is_pollTask e" and es: "list_all (\<lambda>e. \<not> is_pollTask e) es"
    by simp_all
  from quiet_step [OF Cons.prems(1) e, of t]
  have 1: "intervals (step t s e) = []" and 2: "fetches (step t s e) = fetches s"
    by simp_all
  from Cons.IH [OF 1 es] 2 show ?case by (simp add: run_def)
qed

lemma run_append: "run t (es @ fs) s = run t fs (run t es s)"
  by (simp add: run_def)

lemma run_Cons: "run t (e # es) s = run t es (step t s e)"
  by (simp add: run_def)

lemma run_Nil: "run t [] s = s"
  by (simp add: run_def)

lemma settle_unfold:
  "k < length (inflight s) \<Longrightarrow>
   settle t k r s =
     (case r of
        Resolved gen \<Rightarrow> on_response t (fst (inflight s ! k)) gen
          (s\<lparr>inflight := take k (inflight s) @ drop (Suc k) (inflight s)\<rparr>)
      | Rejected \<Rightarrow> on_error t (fst (inflight s ! k))
          (s\<lparr>inflight := take k (inflight s) @ drop (Suc k) (inflight s)\<rparr>)
      | ResolvedNull \<Rightarrow> on_error t (fst (inflight s ! k))
          (s\<lparr>inflight := take k (inflight s) @ drop (Suc k) (inflight s)\<rparr>))"
  by (simp add: settle_def Let_def)

lemma not_active_filter:
  "intervals s' = filter (\<lambda>(j, taskId). j \<noteq> i) (intervals s) \<Longrightarrow> \<not> active i s'"
  by (auto simp: active_def)

lemma filter_only:
  "map fst xs = [i] \<Longrightarrow> filter (\<lambda>(j, taskId). j \<noteq> i) xs = []"
  by (cases xs) auto

lemma pending_A_fields:
  "inflight pending_A = [(1, task_A)]" "intervals pending_A = [(1, task_A)]"
  "fetches pending_A = [(1, task_A)]"
  by (simp_all add: pending_A_def run_def poll_init_def pollTask_def tick_def Let_def)

lemma on_response_in_progress:
  "in_progress gen \<Longrightarrow>
   on_response t i gen s =
     s\<lparr>store_progress := (case gen_progress gen of None \<Rightarrow> 0 | Some p \<Rightarrow> p),
       progressMessage := (case gen_progress_message gen of None \<Rightarrow> [] | Some m \<Rightarrow> m)\<rparr>"
  by (auto simp: on_response_def in_progress_def Let_def)

lemma on_response_failed:
  "gen_status gen = Failed \<Longrightarrow>
   on_response t i gen s =
     s\<lparr>store_progress := (case gen_progress gen of None \<Rightarrow> 0 | Some p \<Rightarrow> p),
       progressMessage := [],
       generationStatus := Status Failed,
       errorMessage := Some (surfaced_error (gen_error_message gen)),
       intervals := filter (\<lambda>(j, taskId). j \<noteq> i) (intervals s),
       pollIntervalRef := None\<rparr>"
  by (cases "gen_error_message gen")
     (simp_all add: on_response_def Let_def clearInterval_def surfaced_error_def)

lemma on_response_completed:
  "gen_status gen = Completed \<Longrightarrow>
   on_response t i gen s =
     s\<lparr>store_progress := (case gen_progress gen of None \<Rightarrow> 0 | Some p \<Rightarrow> p),
       progressMessage := [],
       store_lyrics := applied (gen_lyrics gen) (store_lyrics s),
       store_title := applied (gen_title gen) (store_title s),
       generationStatus := Status Completed,
       successMessage := Some (t (js ''create.musicGeneratedSuccess'')),
       intervals := filter (\<lambda>(j, taskId). j \<noteq> i) (intervals s),
       pollIntervalRef := None,
       timeouts := timeouts s @ [200]\<rparr>"
  by (cases "gen_lyrics gen"; cases "gen_title gen")
     (simp_all add: on_response_def Let_def clearInterval_def applied_def)

text \<open>One tick of the only loop and its response, with nothing else pending.\<close>

lemma tick_settle:
  assumes "intervals s = [(i, a)]" and "inflight s = []"
  shows "run t [Tick i, Settle 0 (Resolved gen)] s =
     on_response t i gen (s\<lparr>fetches := fetches s @ [(i, a)]\<rparr>)"
proof -
  have e: "s\<lparr>fetches := fetches s @ [(i, a)], inflight := []\<rparr> = s\<lparr>fetches := fetches s @ [(i, a)]\<rparr>"
    by (rule poll_state.equality) (simp_all add: assms)
  from assms show ?thesis
    by (simp add: run_def tick_def settle_def Let_def e)
qed

lemma poll_events_in_progress:
  "intervals s = [(i, a)] \<Longrightarrow> inflight s = [] \<Longrightarrow> list_all in_progress pre \<Longrightarrow>
   (\<exists>p m. run t (poll_events i (map Resolved pre)) s =
      s\<lparr>store_progress := p, progressMessage := m,
        fetches := fetches s @ replicate (length pre) (i, a)\<rparr>)"
proof (induction pre arbitrary: s)
  case Nil
  have "s = s\<lparr>store_progress := store_progress s, progressMessage := progressMessage s,
      fetches := fetches s\<rparr>" by simp
  then show ?case
    by (intro exI [of _ "store_progress s"] exI [of _ "progressMessage s"])
       (simp add: poll_events_def run_def)
next
  case (Cons g pre)
  then have g: "in_progress g" and pre: "list_all in_progress pre" by simp_all
  define s1 where "s1 = run t [Tick i, Settle 0 (Resolved g)] s"
  have s1: "s1 = s\<lparr>store_progress := (case gen_progress g of None \<Rightarrow> 0 | Some p \<Rightarrow> p),
       progressMessage := (case gen_progress_message g of None \<Rightarrow> [] | Some m \<Rightarrow> m),
       fetches := fetches s @ [(i, a)]\<rparr>"
    unfolding s1_def tick_settle [OF Cons.prems(1,2)] on_response_in_progress [OF g]
    by simp
  have iv: "intervals s1 = [(i, a)]" and inf: "inflight s1 = []"
    using Cons.prems(1,2) by (simp_all add: s1)
  from Cons.IH [OF iv inf pre] obtain p m where
    "run t (poll_events i (map Resolved pre)) s1 =
      s1\<lparr>store_progress := p, progressMessage := m,
        fetches := fetches s1 @ replicate (length pre) (i, a)\<rparr>"
    by blast
  then have "run t (poll_events i (map Resolved pre)) s1 =
      s\<lparr>store_progress := p, progressMessage := m,
        fetches := fetches s @ replicate (length (g # pre)) (i, a)\<rparr>"
    by (simp add: s1)
  moreover have "run t (poll_events i (map Resolved (g # pre))) s =
      run t (poll_events i (map Resolved pre)) s1"
    by (simp add: poll_events_def s1_def run_def)
  ultimately show ?case by auto
qed

lemma pollTask_init:
  "pollTask a poll_init = poll_init\<lparr>intervals := [(1, a)], nextTimer := 2,
     pollIntervalRef := Some 1\<rparr>"
  by (simp add: pollTask_def poll_init_def Let_def)

text \<open>The state before the last response of a status sequence.\<close>

lemma polled_snoc:
  assumes "list_all in_progress pre"
  shows "\<exists>p m. polled t a (map Resolved (pre @ [gen])) =
     on_response t 1 gen
       (poll_init\<lparr>intervals := [(1, a)], nextTimer := 2, pollIntervalRef := Some 1,
          store_progress := p, progressMessage := m,
          fetches := replicate (Suc (length pre)) (1, a)\<rparr>)"
proof -
  define s0 where "s0 = pollTask a poll_init"
  have s0: "s0 = poll_init\<lparr>intervals := [(1, a)], nextTimer := 2, pollIntervalRef := Some 1\<rparr>"
    unfolding s0_def by (rule pollTask_init)
  have iv: "intervals s0 = [(1, a)]" and inf: "inflight s0 = []" and fe: "fetches s0 = []"
    unfolding s0 by (simp_all add: poll_init_def)
  define s1 where "s1 = run t (poll_events 1 (map Resolved pre)) s0"
  from poll_events_in_progress [OF iv inf assms, of t] obtain p m where
    s1: "s1 = s0\<lparr>store_progress := p, progressMessage := m,
        fetches := fetches s0 @ replicate (length pre) (1, a)\<rparr>"
    unfolding s1_def by blast
  have iv1: "intervals s1 = [(1, a)]" and inf1: "inflight s1 = []"
    unfolding s1 by (simp_all add: iv inf)
  have "polled t a (map Resolved (pre @ [gen])) = run t [Tick 1, Settle 0 (Resolved gen)] s1"
    unfolding s1_def s0_def by (simp add: polled_def poll_events_def run_def)
  also have "\<dots> = on_response t 1 gen (s1\<lparr>fetches := fetches s1 @ [(1, a)]\<rparr>)"
    by (rule tick_settle [OF iv1 inf1])
  also have "s1\<lparr>fetches := fetches s1 @ [(1, a)]\<rparr> =
      poll_init\<lparr>intervals := [(1, a)], nextTimer := 2, pollIntervalRef := Some 1,
          store_progress := p, progressMessage := m,
          fetches := replicate (Suc (length pre)) (1, a)\<rparr>"
    unfolding s1 fe unfolding s0 by (simp add: replicate_append_same)
  finally show ?thesis by blast
qed

lemma settle_resolved:
  "k < length (inflight s) \<Longrightarrow>
   settle t k (Resolved gen) s =
     on_response t (fst (inflight s ! k)) gen
       (s\<lparr>inflight := take k (inflight s) @ drop (Suc k) (inflight s)\<rparr>)"
  by (simp add: settle_unfold)

lemma stopped_for_good:
  assumes "s = run t es0 poll_init" and "active i s"
    and "intervals s' = filter (\<lambda>(j, taskId). j \<noteq> i) (intervals s)"
    and "nextTimer s' = nextTimer s" and "fetches s' = fetches s"
  shows "\<not> active i s'"
    and "\<forall>es. \<not> active i (run t es s') \<and> loop_fetches i (run t es s') = loop_fetches i s"
    and "map fst (intervals s) = [i] \<longrightarrow>
          (\<forall>es. list_all (\<lambda>e. \<not> is_pollTask e) es \<longrightarrow> fetches (run t es s') = fetches s)"
proof -
  show dead: "\<not> active i s'" using assms(3) by (rule not_active_filter)
  have "fresh s" unfolding assms(1) by (rule fresh_run [OF fresh_init])
  with assms(2) have "i < nextTimer s" by (simp add: fresh_alt)
  then have nt: "i < nextTimer s'" by (simp add: assms(4))
  show "\<forall>es. \<not> active i (run t es s') \<and> loop_fetches i (run t es s') = loop_fetches i s"
  proof
    fix es
    from dead_run [OF dead nt, of t es] assms(5)
    show "\<not> active i (run t es s') \<and> loop_fetches i (run t es s') = loop_fetches i s"
      by (simp add: loop_fetches_def)
  qed
  show "map fst (intervals s) = [i] \<longrightarrow>
      (\<forall>es. list_all (\<lambda>e. \<not> is_pollTask e) es \<longrightarrow> fetches (run t es s') = fetches s)"
  proof (intro impI allI)
    fix es
    assume "map fst (intervals s) = [i]" and q: "list_all (\<lambda>e. \<not> is_pollTask e) es"
    then have "intervals s' = []" by (simp add: assms(3) filter_only)
    from quiet_run [OF this q, of t] assms(5) show "fetches (run t es s') = fetches s" by simp
  qed
qed

lemma polled_completed:
  assumes "list_all in_progress pre" and "gen_status gen = Completed"
  shows "generationStatus (polled t a (map Resolved (pre @ [gen]))) = Status Completed"
    and "store_lyrics (polled t a (map Resolved (pre @ [gen]))) = applied (gen_lyrics gen) []"
    and "store_title (polled t a (map Resolved (pre @ [gen]))) = applied (gen_title gen) []"
    and "successMessage (polled t a (map Resolved (pre @ [gen])))
          = Some (t (js ''create.musicGeneratedSuccess''))"
    and "progressMessage (polled t a (map Resolved (pre @ [gen]))) = []"
    and "intervals (polled t a (map Resolved (pre @ [gen]))) = []"
    and "timeouts (polled t a (map Resolved (pre @ [gen]))) = [200]"
    and "length (fetches (polled t a (map Resolved (pre @ [gen])))) = Suc (length pre)"
    and "\<forall>es. list_all (\<lambda>e. \<not> is_pollTask e) es \<longrightarrow>
           fetches (run t es (polled t a (map Resolved (pre @ [gen]))))
           = fetches (polled t a (map Resolved (pre @ [gen])))"
proof -
  from polled_snoc [OF assms(1), of t a gen] obtain p m where
    pf: "polled t a (map Resolved (pre @ [gen])) =
      on_response t 1 gen
        (poll_init\<lparr>intervals := [(1, a)], nextTimer := 2, pollIntervalRef := Some 1,
          store_progress := p, progressMessage := m,
          fetches := replicate (Suc (length pre)) (1, a)\<rparr>)"
    by blast
  let ?f = "polled t a (map Resolved (pre @ [gen]))"
  show "generationStatus ?f = Status Completed"
    and "store_lyrics ?f = applied (gen_lyrics gen) []"
    and "store_title ?f = applied (gen_title gen) []"
    and "successMessage ?f = Some (t (js ''create.musicGeneratedSuccess''))"
    and "progressMessage ?f = []"
    and iv: "intervals ?f = []"
    and "timeouts ?f = [200]"
    and "length (fetches ?f) = Suc (length pre)"
    unfolding pf on_response_completed [OF assms(2)] by (simp_all add: poll_init_def)
  show "\<forall>es. list_all (\<lambda>e. \<not> is_pollTask e) es \<longrightarrow> fetches (run t es ?f) = fetches ?f"
    using quiet_run [OF iv, of _ t] by blast
qed





section \<open>Claims on polling\<close>

text \<open>
  Claim C2. In every reachable state, when a pending status call of an active polling
  loop fails (the promise is rejected or resolves to no response), the rest of that tick
  sets the generation status to failed with the message \<open>t "create.lostConnection"\<close>,
  clears the progress message, and stops the loop: its timer is no longer active, no
  call is made in that tick (there is no retry), and whatever happens afterwards the
  timer is never active again and the loop makes no further call. When the loop was the
  only one, no call at all is made afterwards until \<^verbatim>\<open>pollTask\<close> is called again.
\<close>

theorem poll_fetch_failure:
  assumes "s = run t es0 poll_init" and "k < length (inflight s)"
    and "fst (inflight s ! k) = i" and "active i s"
    and "r = Rejected \<or> r = ResolvedNull"
  shows "generationStatus (settle t k r s) = Status Failed
     \<and> errorMessage (settle t k r s) = Some (t (js ''create.lostConnection''))
     \<and> progressMessage (settle t k r s) = []
     \<and> \<not> active i (settle t k r s)
     \<and> fetches (settle t k r s) = fetches s
     \<and> (\<forall>es. \<not> active i (run t es (settle t k r s))
              \<and> loop_fetches i (run t es (settle t k r s)) = loop_fetches i s)
     \<and> (map fst (intervals s) = [i] \<longrightarrow>
          (\<forall>es. list_all (\<lambda>e. \<not> is_pollTask e) es \<longrightarrow>
                fetches (run t es (settle t k r s)) = fetches s))"
proof -
  let ?s = "settle t k r s"
  define s1 where "s1 = s\<lparr>inflight := take k (inflight s) @ drop (Suc k) (inflight s)\<rparr>"
  have st: "?s = on_error t i s1"
    using assms(2,3,5) by (auto simp: settle_unfold s1_def)
  have iv: "intervals ?s = filter (\<lambda>(j, taskId). j \<noteq> i) (intervals s)"
    by (simp add: st on_error_fields s1_def)
  have dead: "\<not> active i ?s" using iv by (rule not_active_filter)
  have "fresh s" unfolding assms(1) by (rule fresh_run [OF fresh_init])
  with assms(4) have "i < nextTimer s" by (simp add: fresh_alt)
  then have nt: "i < nextTimer ?s" by (simp add: settle_frame)
  have fe: "fetches ?s = fetches s" by (simp add: settle_frame)
  have perm: "\<forall>es. \<not> active i (run t es ?s) \<and> loop_fetches i (run t es ?s) = loop_fetches i s"
  proof
    fix es
    from dead_run [OF dead nt, of t es] fe
    show "\<not> active i (run t es ?s) \<and> loop_fetches i (run t es ?s) = loop_fetches i s"
      by (simp add: loop_fetches_def)
  qed
  have only: "map fst (intervals s) = [i] \<longrightarrow>
      (\<forall>es. list_all (\<lambda>e. \<not> is_pollTask e) es \<longrightarrow> fetches (run t es ?s) = fetches s)"
  proof (intro impI allI)
    fix es
    assume "map fst (intervals s) = [i]" and q: "list_all (\<lambda>e. \<not> is_pollTask e) es"
    then have "intervals ?s = []" by (simp add: iv filter_only)
    from quiet_run [OF this q, of t] fe show "fetches (run t es ?s) = fetches s" by simp
  qed
  have "generationStatus ?s = Status Failed"
    and "errorMessage ?s = Some (t (js ''create.lostConnection''))"
    and "progressMessage ?s = []"
    by (simp_all add: st on_error_fields)
  with dead fe perm only show ?thesis by blast
qed

theorem poll_fetch_failure_witness:
  "active 1 pending_A
   \<and> errorMessage (settle (\<lambda>key. key) 0 Rejected pending_A) = Some (js ''create.lostConnection'')
   \<and> generationStatus (settle (\<lambda>key. key) 0 Rejected pending_A) = Status Failed
   \<and> intervals (settle (\<lambda>key. key) 0 Rejected pending_A) = []
   \<and> fetches (run (\<lambda>key. key) [Tick 1, Tick 1, CancelPolling, Tick 1]
        (settle (\<lambda>key. key) 0 Rejected pending_A)) = [(1, task_A)]"
proof -
  have a: "active 1 pending_A" by (simp add: active_def pending_A_fields)
  have k: "0 < length (inflight pending_A)" "fst (inflight pending_A ! 0) = 1"
    "map fst (intervals pending_A) = [1]"
    by (simp_all add: pending_A_fields)
  have q: "list_all (\<lambda>e. \<not> is_pollTask e) [Tick 1, Tick 1, CancelPolling, Tick 1]" by simp
  note inst = poll_fetch_failure [OF pending_A_def k(1,2) a, of Rejected]
  from inst have 1: "errorMessage (settle (\<lambda>key. key) 0 Rejected pending_A)
      = Some (js ''create.lostConnection'')"
    and 2: "generationStatus (settle (\<lambda>key. key) 0 Rejected pending_A) = Status Failed"
    by simp_all
  from inst k(3) q have 3: "fetches (run (\<lambda>key. key) [Tick 1, Tick 1, CancelPolling, Tick 1]
        (settle (\<lambda>key. key) 0 Rejected pending_A)) = fetches pending_A"
    by blast
  have 4: "intervals (settle (\<lambda>key. key) 0 Rejected pending_A) = []"
    by (simp add: settle_unfold pending_A_fields on_error_fields)
  from a 1 2 3 4 show ?thesis by (simp add: pending_A_fields)
qed

text \<open>
  Claim C3. In every reachable state, when a pending status call of an active polling
  loop returns a response with status failed, that tick sets the generation status to
  failed, surfaces the error message of the response verbatim when it is present and
  not empty and "Generation failed." otherwise, clears the progress message and stops the
  loop for good. For a status sequence of one loop that ends in failed after responses
  that are pending or processing, the final state has that error, no active timer, one
  call per response, and no further call follows without a new \<^verbatim>\<open>pollTask\<close>. With the error
  message "model unavailable" the surfaced error is exactly "model unavailable".
\<close>

theorem poll_status_failed:
  assumes "s = run t es0 poll_init" and "k < length (inflight s)"
    and "fst (inflight s ! k) = i" and "active i s" and "gen_status gen = Failed"
  shows "generationStatus (settle t k (Resolved gen) s) = Status Failed
     \<and> errorMessage (settle t k (Resolved gen) s) = Some (surfaced_error (gen_error_message gen))
     \<and> progressMessage (settle t k (Resolved gen) s) = []
     \<and> \<not> active i (settle t k (Resolved gen) s)
     \<and> (\<forall>es. \<not> active i (run t es (settle t k (Resolved gen) s))
              \<and> loop_fetches i (run t es (settle t k (Resolved gen) s)) = loop_fetches i s)
     \<and> (gen_error_message gen = Some (js ''model unavailable'') \<longrightarrow>
          errorMessage (settle t k (Resolved gen) s) = Some (js ''model unavailable''))
     \<and> (list_all in_progress pre \<longrightarrow>
          generationStatus (polled t a (map Resolved (pre @ [gen]))) = Status Failed
          \<and> errorMessage (polled t a (map Resolved (pre @ [gen])))
              = Some (surfaced_error (gen_error_message gen))
          \<and> progressMessage (polled t a (map Resolved (pre @ [gen]))) = []
          \<and> intervals (polled t a (map Resolved (pre @ [gen]))) = []
          \<and> length (fetches (polled t a (map Resolved (pre @ [gen])))) = Suc (length pre)
          \<and> (\<forall>es. list_all (\<lambda>e. \<not> is_pollTask e) es \<longrightarrow>
                fetches (run t es (polled t a (map Resolved (pre @ [gen]))))
                = fetches (polled t a (map Resolved (pre @ [gen])))))"
proof -
  let ?s = "settle t k (Resolved gen) s"
  have st: "?s = on_response t i gen
      (s\<lparr>inflight := take k (inflight s) @ drop (Suc k) (inflight s)\<rparr>)"
    using assms(2,3) by (simp add: settle_resolved)
  have f: "generationStatus ?s = Status Failed"
    "errorMessage ?s = Some (surfaced_error (gen_error_message gen))"
    "progressMessage ?s = []"
    "intervals ?s = filter (\<lambda>(j, taskId). j \<noteq> i) (intervals s)"
    "nextTimer ?s = nextTimer s" "fetches ?s = fetches s"
    unfolding st on_response_failed [OF assms(5)] by simp_all
  note stop = stopped_for_good [OF assms(1,4) f(4,5,6)]
  have ex: "gen_error_message gen = Some (js ''model unavailable'') \<longrightarrow>
      errorMessage ?s = Some (js ''model unavailable'')"
    by (simp add: f surfaced_error_def js_def)
  have seq: "list_all in_progress pre \<longrightarrow>
          generationStatus (polled t a (map Resolved (pre @ [gen]))) = Status Failed
          \<and> errorMessage (polled t a (map Resolved (pre @ [gen])))
              = Some (surfaced_error (gen_error_message gen))
          \<and> progressMessage (polled t a (map Resolved (pre @ [gen]))) = []
          \<and> intervals (polled t a (map Resolved (pre @ [gen]))) = []
          \<and> length (fetches (polled t a (map Resolved (pre @ [gen])))) = Suc (length pre)
          \<and> (\<forall>es. list_all (\<lambda>e. \<not> is_pollTask e) es \<longrightarrow>
                fetches (run t es (polled t a (map Resolved (pre @ [gen]))))
                = fetches (polled t a (map Resolved (pre @ [gen]))))"
  proof
    assume "list_all in_progress pre"
    from polled_snoc [OF this, of t a gen] obtain p m where
      pf: "polled t a (map Resolved (pre @ [gen])) =
        on_response t 1 gen
          (poll_init\<lparr>intervals := [(1, a)], nextTimer := 2, pollIntervalRef := Some 1,
            store_progress := p, progressMessage := m,
            fetches := replicate (Suc (length pre)) (1, a)\<rparr>)"
      by blast
    let ?f = "polled t a (map Resolved (pre @ [gen]))"
    have g: "generationStatus ?f = Status Failed"
      "errorMessage ?f = Some (surfaced_error (gen_error_message gen))"
      "progressMessage ?f = []" "intervals ?f = []"
      "length (fetches ?f) = Suc (length pre)"
      unfolding pf on_response_failed [OF assms(5)] by simp_all
    have "\<forall>es. list_all (\<lambda>e. \<not> is_pollTask e) es \<longrightarrow> fetches (run t es ?f) = fetches ?f"
      using quiet_run [OF g(4), of _ t] by blast
    with g show "generationStatus ?f = Status Failed
          \<and> errorMessage ?f = Some (surfaced_error (gen_error_message gen))
          \<and> progressMessage ?f = [] \<and> intervals ?f = []
          \<and> length (fetches ?f) = Suc (length pre)
          \<and> (\<forall>es. list_all (\<lambda>e. \<not> is_pollTask e) es \<longrightarrow> fetches (run t es ?f) = fetches ?f)"
      by blast
  qed
  from f(1,2,3) stop(1,2) ex seq show ?thesis by blast
qed

theorem poll_status_failed_witness:
  "active 1 pending_A
   \<and> errorMessage (settle (\<lambda>key. key) 0 (Resolved failed_gen) pending_A)
       = Some (js ''model unavailable'')
   \<and> errorMessage (settle (\<lambda>key. key) 0 (Resolved (gen_of Failed)) pending_A)
       = Some (js ''Generation failed.'')
   \<and> errorMessage (polled (\<lambda>key. key) task_A
         (map Resolved ([gen_of Pending, gen_of Processing] @ [failed_gen])))
       = Some (js ''model unavailable'')
   \<and> length (fetches (polled (\<lambda>key. key) task_A
         (map Resolved ([gen_of Pending, gen_of Processing] @ [failed_gen])))) = 3"
proof -
  have a: "active 1 pending_A" by (simp add: active_def pending_A_fields)
  have k: "0 < length (inflight pending_A)" "fst (inflight pending_A ! 0) = 1"
    by (simp_all add: pending_A_fields)
  have g: "gen_status failed_gen = Failed" "gen_status (gen_of Failed) = Failed"
    "gen_error_message failed_gen = Some (js ''model unavailable'')"
    "surfaced_error (gen_error_message (gen_of Failed)) = js ''Generation failed.''"
    by (simp_all add: failed_gen_def gen_of_def surfaced_error_def)
  have p: "list_all in_progress [gen_of Pending, gen_of Processing]"
    by (simp add: in_progress_def gen_of_def)
  have se: "surfaced_error (Some (js ''model unavailable'')) = js ''model unavailable''"
    by (simp add: surfaced_error_def js_def)
  note i1 = poll_status_failed [OF pending_A_def k a g(1),
      of "[gen_of Pending, gen_of Processing]" task_A]
  note i2 = poll_status_failed [OF pending_A_def k a g(2), of "[]" task_A]
  from i1 g(3) have 1: "errorMessage (settle (\<lambda>key. key) 0 (Resolved failed_gen) pending_A)
       = Some (js ''model unavailable'')"
    by blast
  from i2 g(4) have 2: "errorMessage (settle (\<lambda>key. key) 0 (Resolved (gen_of Failed)) pending_A)
       = Some (js ''Generation failed.'')"
    by simp
  from i1 p have 3: "errorMessage (polled (\<lambda>key. key) task_A
         (map Resolved ([gen_of Pending, gen_of Processing] @ [failed_gen])))
       = Some (surfaced_error (gen_error_message failed_gen))"
    and 4: "length (fetches (polled (\<lambda>key. key) task_A
         (map Resolved ([gen_of Pending, gen_of Processing] @ [failed_gen]))))
       = Suc (length [gen_of Pending, gen_of Processing])"
    by blast+
  from a 1 2 3 4 show ?thesis by (simp add: g(3) se)
qed

text \<open>
  Claim C4. In every reachable state, when a pending status call of an active polling
  loop returns a response with status completed, that tick applies the lyrics and the
  title of the response when present and not empty, sets the generation status to
  completed and the success message, clears the progress message, schedules the scroll
  into view with a delay of 200 ms, and stops the loop for good: no call is made in that
  tick and the loop never makes a call again. For a status sequence of one loop whose
  first terminal response is completed the final state is as described, with one call
  per response and no further call without a new \<^verbatim>\<open>pollTask\<close>; on pending, processing,
  processing, completed there are four calls and there remain four.
\<close>

theorem poll_status_completed:
  assumes "s = run t es0 poll_init" and "k < length (inflight s)"
    and "fst (inflight s ! k) = i" and "active i s" and "gen_status gen = Completed"
  shows "generationStatus (settle t k (Resolved gen) s) = Status Completed
     \<and> store_lyrics (settle t k (Resolved gen) s) = applied (gen_lyrics gen) (store_lyrics s)
     \<and> store_title (settle t k (Resolved gen) s) = applied (gen_title gen) (store_title s)
     \<and> successMessage (settle t k (Resolved gen) s)
         = Some (t (js ''create.musicGeneratedSuccess''))
     \<and> progressMessage (settle t k (Resolved gen) s) = []
     \<and> timeouts (settle t k (Resolved gen) s) = timeouts s @ [200]
     \<and> \<not> active i (settle t k (Resolved gen) s)
     \<and> fetches (settle t k (Resolved gen) s) = fetches s
     \<and> (\<forall>es. \<not> active i (run t es (settle t k (Resolved gen) s))
              \<and> loop_fetches i (run t es (settle t k (Resolved gen) s)) = loop_fetches i s)
     \<and> (map fst (intervals s) = [i] \<longrightarrow>
          (\<forall>es. list_all (\<lambda>e. \<not> is_pollTask e) es \<longrightarrow>
                fetches (run t es (settle t k (Resolved gen) s)) = fetches s))
     \<and> (list_all in_progress pre \<longrightarrow>
          generationStatus (polled t a (map Resolved (pre @ [gen]))) = Status Completed
          \<and> store_lyrics (polled t a (map Resolved (pre @ [gen]))) = applied (gen_lyrics gen) []
          \<and> store_title (polled t a (map Resolved (pre @ [gen]))) = applied (gen_title gen) []
          \<and> progressMessage (polled t a (map Resolved (pre @ [gen]))) = []
          \<and> intervals (polled t a (map Resolved (pre @ [gen]))) = []
          \<and> timeouts (polled t a (map Resolved (pre @ [gen]))) = [200]
          \<and> length (fetches (polled t a (map Resolved (pre @ [gen])))) = Suc (length pre)
          \<and> (\<forall>es. list_all (\<lambda>e. \<not> is_pollTask e) es \<longrightarrow>
                fetches (run t es (polled t a (map Resolved (pre @ [gen]))))
                = fetches (polled t a (map Resolved (pre @ [gen])))))
     \<and> generationStatus (polled t a status_example) = Status Completed
     \<and> intervals (polled t a status_example) = []
     \<and> length (fetches (polled t a status_example)) = 4
     \<and> (\<forall>es. list_all (\<lambda>e. \<not> is_pollTask e) es \<longrightarrow>
           length (fetches (run t es (polled t a status_example))) = 4)"
proof -
  let ?s = "settle t k (Resolved gen) s"
  have st: "?s = on_response t i gen
      (s\<lparr>inflight := take k (inflight s) @ drop (Suc k) (inflight s)\<rparr>)"
    using assms(2,3) by (simp add: settle_resolved)
  have f: "generationStatus ?s = Status Completed"
    "store_lyrics ?s = applied (gen_lyrics gen) (store_lyrics s)"
    "store_title ?s = applied (gen_title gen) (store_title s)"
    "successMessage ?s = Some (t (js ''create.musicGeneratedSuccess''))"
    "progressMessage ?s = []"
    "timeouts ?s = timeouts s @ [200]"
    unfolding st on_response_completed [OF assms(5)] by simp_all
  have fr: "intervals ?s = filter (\<lambda>(j, taskId). j \<noteq> i) (intervals s)"
    "nextTimer ?s = nextTimer s" "fetches ?s = fetches s"
    unfolding st on_response_completed [OF assms(5)] by simp_all
  note stop = stopped_for_good [OF assms(1,4) fr]
  have seq: "list_all in_progress pre \<longrightarrow>
          generationStatus (polled t a (map Resolved (pre @ [gen]))) = Status Completed
          \<and> store_lyrics (polled t a (map Resolved (pre @ [gen]))) = applied (gen_lyrics gen) []
          \<and> store_title (polled t a (map Resolved (pre @ [gen]))) = applied (gen_title gen) []
          \<and> progressMessage (polled t a (map Resolved (pre @ [gen]))) = []
          \<and> intervals (polled t a (map Resolved (pre @ [gen]))) = []
          \<and> timeouts (polled t a (map Resolved (pre @ [gen]))) = [200]
          \<and> length (fetches (polled t a (map Resolved (pre @ [gen])))) = Suc (length pre)
          \<and> (\<forall>es. list_all (\<lambda>e. \<not> is_pollTask e) es \<longrightarrow>
                fetches (run t es (polled t a (map Resolved (pre @ [gen]))))
                = fetches (polled t a (map Resolved (pre @ [gen]))))"
    using polled_completed [OF _ assms(5), of pre t a] by blast
  have p3: "list_all in_progress [gen_of Pending, gen_of Processing, gen_of Processing]"
    by (simp add: in_progress_def gen_of_def)
  have c: "gen_status (gen_of Completed) = Completed" by (simp add: gen_of_def)
  note e = polled_completed [OF p3 c, of t a, folded status_example_def]
  have e4: "length (fetches (polled t a status_example)) = 4"
    using e(8) by simp
  have e5: "\<forall>es. list_all (\<lambda>e. \<not> is_pollTask e) es \<longrightarrow>
           length (fetches (run t es (polled t a status_example))) = 4"
    using e(9) e4 by simp
  from f fr(3) stop seq e(1) e(6) e4 e5 show ?thesis by blast
qed

theorem poll_status_completed_witness:
  "active 1 pending_A
   \<and> generationStatus (settle (\<lambda>key. key) 0 (Resolved completed_gen) pending_A) = Status Completed
   \<and> store_lyrics (settle (\<lambda>key. key) 0 (Resolved completed_gen) pending_A) = js ''la la''
   \<and> store_title (settle (\<lambda>key. key) 0 (Resolved (gen_of Completed)) pending_A) = []
   \<and> timeouts (settle (\<lambda>key. key) 0 (Resolved completed_gen) pending_A) = [200]
   \<and> fetches (run (\<lambda>key. key) [Tick 1, Tick 1]
        (settle (\<lambda>key. key) 0 (Resolved completed_gen) pending_A)) = [(1, task_A)]
   \<and> store_title (polled (\<lambda>key. key) task_A
        (map Resolved ([gen_of Pending] @ [completed_gen]))) = js ''Song''"
proof -
  have a: "active 1 pending_A" by (simp add: active_def pending_A_fields)
  have k: "0 < length (inflight pending_A)" "fst (inflight pending_A ! 0) = 1"
    "map fst (intervals pending_A) = [1]"
    by (simp_all add: pending_A_fields)
  have g: "gen_status completed_gen = Completed" "gen_status (gen_of Completed) = Completed"
    by (simp_all add: completed_gen_def gen_of_def)
  have ap: "applied (gen_lyrics completed_gen) (store_lyrics pending_A) = js ''la la''"
    "applied (gen_title (gen_of Completed)) (store_title pending_A) = []"
    "applied (gen_title completed_gen) [] = js ''Song''"
    by (simp_all add: applied_def completed_gen_def gen_of_def js_def pending_A_def run_def
        poll_init_def pollTask_def tick_def Let_def)
  have ts: "timeouts pending_A = []"
    by (simp add: pending_A_def run_def poll_init_def pollTask_def tick_def Let_def)
  have p: "list_all in_progress [gen_of Pending]" by (simp add: in_progress_def gen_of_def)
  have q: "list_all (\<lambda>e. \<not> is_pollTask e) [Tick 1, Tick 1]" by simp
  note i1 = poll_status_completed [OF pending_A_def k(1,2) a g(1), of "[gen_of Pending]" task_A]
  note i2 = poll_status_completed [OF pending_A_def k(1,2) a g(2), of "[]" task_A]
  from i1 have 1: "generationStatus (settle (\<lambda>key. key) 0 (Resolved completed_gen) pending_A)
      = Status Completed"
    and 2: "store_lyrics (settle (\<lambda>key. key) 0 (Resolved completed_gen) pending_A)
      = applied (gen_lyrics completed_gen) (store_lyrics pending_A)"
    and 4: "timeouts (settle (\<lambda>key. key) 0 (Resolved completed_gen) pending_A)
      = timeouts pending_A @ [200]"
    by blast+
  from i2 have 3: "store_title (settle (\<lambda>key. key) 0 (Resolved (gen_of Completed)) pending_A)
      = applied (gen_title (gen_of Completed)) (store_title pending_A)"
    by blast
  from i1 k(3) q have 5: "fetches (run (\<lambda>key. key) [Tick 1, Tick 1]
        (settle (\<lambda>key. key) 0 (Resolved completed_gen) pending_A)) = fetches pending_A"
    by blast
  from i1 p have 6: "store_title (polled (\<lambda>key. key) task_A
        (map Resolved ([gen_of Pending] @ [completed_gen]))) = applied (gen_title completed_gen) []"
    by blast
  from a 1 2 3 4 5 6 show ?thesis by (simp add: ap ts pending_A_fields)
qed




end
